theory Spec2Isabelle
  imports Main "HOL-Library.Word"
begin

section \<open>Strings of UTF-16 code units\<close>

text \<open>
  A JavaScript string is a sequence of 16-bit code units; \<open>length\<close>, \<open>match.index\<close> and
  \<open>lastIndex\<close> count code units, and a regular expression without the \<open>u\<close> flag matches
  code unit by code unit. The note grammar uses three characters outside ASCII, each a single
  code unit.
\<close>

type_synonym cu = "16 word"
type_synonym ustring = "cu list"

definition openB :: cu where "openB = 0x3010"    \<comment> \<open>LEFT BLACK LENTICULAR BRACKET\<close>
definition closeB :: cu where "closeB = 0x3011"  \<comment> \<open>RIGHT BLACK LENTICULAR BRACKET\<close>
definition colonF :: cu where "colonF = 0xFF1A"  \<comment> \<open>FULLWIDTH COLON\<close>
definition LF :: cu where "LF = 0x0A"
definition CR :: cu where "CR = 0x0D"

definition ascii :: "string \<Rightarrow> ustring" where
  "ascii s = map of_char s"

text \<open>
  ECMAScript WhiteSpace and LineTerminator code points: the set stripped by
  \<open>String.prototype.trim\<close> and matched by the class escape \<open>\s\<close>.
\<close>

definition isSpace :: "cu \<Rightarrow> bool" where
  "isSpace c \<longleftrightarrow> c = 0x09 \<or> c = 0x0A \<or> c = 0x0B \<or> c = 0x0C \<or> c = 0x0D \<or> c = 0x20
     \<or> c = 0xA0 \<or> c = 0x1680 \<or> (0x2000 \<le> c \<and> c \<le> 0x200A) \<or> c = 0x2028 \<or> c = 0x2029
     \<or> c = 0x202F \<or> c = 0x205F \<or> c = 0x3000 \<or> c = 0xFEFF"

definition isLineTerminator :: "cu \<Rightarrow> bool" where
  "isLineTerminator c \<longleftrightarrow> c = 0x0A \<or> c = 0x0D \<or> c = 0x2028 \<or> c = 0x2029"

definition trim :: "ustring \<Rightarrow> ustring" where
  "trim s = rev (dropWhile isSpace (rev (dropWhile isSpace s)))"


section \<open>Regular expressions: the fragment of ECMAScript the extension uses\<close>

text \<open>
  Abstract syntax of patterns. \<open>Class neg items\<close> is a character class \<open>[...]\<close> or
  \<open>[^...]\<close>; \<open>Star g r\<close> and \<open>Opt g r\<close> are \<open>r*\<close> and \<open>r?\<close>, greedy when \<open>g\<close> holds and
  lazy (\<open>r*?\<close>, \<open>r??\<close>) otherwise; \<open>Group n r\<close> is the \<open>n\<close>-th capturing group;
  \<open>LookAhead r\<close> is \<open>(?=r)\<close>; \<open>InputEnd\<close> is \<open>$\<close> without the \<open>m\<close> flag.
\<close>

datatype classItem = CChar cu | CSpace | CNotSpace

datatype regex =
    Empty
  | Chr cu
  | Dot
  | Class bool "classItem list"
  | Seq regex regex
  | Alt regex regex
  | Star bool regex
  | Opt bool regex
  | Group nat regex
  | LookAhead regex
  | InputEnd

text \<open>
  \<open>r+\<close> is the RepeatMatcher with minimum one: one iteration of \<open>r\<close> with no emptiness
  check, continued by the RepeatMatcher with minimum zero.
\<close>

definition Plus :: "bool \<Rightarrow> regex \<Rightarrow> regex" where
  "Plus g r = Seq r (Star g r)"

fun inItem :: "classItem \<Rightarrow> cu \<Rightarrow> bool" where
  "inItem (CChar d) c = (c = d)"
| "inItem CSpace c = isSpace c"
| "inItem CNotSpace c = (\<not> isSpace c)"

definition inClass :: "bool \<Rightarrow> classItem list \<Rightarrow> cu \<Rightarrow> bool" where
  "inClass neg items c = (list_ex (\<lambda>it. inItem it c) items \<noteq> neg)"

text \<open>
  A match state is the input still to be read together with the captures made so far
  (most recent first). The matcher is the backtracking matcher of the language
  specification written as a list of successes: \<open>matches r st\<close> lists every state in which
  \<open>r\<close> can end when started in \<open>st\<close>, in the order in which backtracking tries them, so the
  head of the list is the match the engine reports. An iteration of \<open>*\<close> or \<open>?\<close> that
  consumes nothing is rejected, as the RepeatMatcher does; since a state only ever moves
  forward in the input, "consumed something" is "the remaining input got shorter".
  No pattern of the extension has a capturing group under a quantifier, so the clearing of
  captures at each iteration is not modelled.
\<close>

type_synonym captures = "(nat \<times> ustring) list"
type_synonym mstate = "ustring \<times> captures"

function (sequential) matches :: "regex \<Rightarrow> mstate \<Rightarrow> mstate list" where
  "matches Empty st = [st]"
| "matches (Chr c) (s, caps) =
     (case s of [] \<Rightarrow> [] | x # xs \<Rightarrow> if x = c then [(xs, caps)] else [])"
| "matches Dot (s, caps) =
     (case s of [] \<Rightarrow> [] | x # xs \<Rightarrow> if isLineTerminator x then [] else [(xs, caps)])"
| "matches (Class neg items) (s, caps) =
     (case s of [] \<Rightarrow> [] | x # xs \<Rightarrow> if inClass neg items x then [(xs, caps)] else [])"
| "matches (Seq r1 r2) st = concat (map (matches r2) (matches r1 st))"
| "matches (Alt r1 r2) st = matches r1 st @ matches r2 st"
| "matches (Star g r) (s, caps) =
     (let more = concat (map (\<lambda>st'. if length (fst st') < length s
                                      then matches (Star g r) st' else [])
                             (matches r (s, caps)))
      in if g then more @ [(s, caps)] else (s, caps) # more)"
| "matches (Opt g r) (s, caps) =
     (let more = filter (\<lambda>st'. length (fst st') < length s) (matches r (s, caps))
      in if g then more @ [(s, caps)] else (s, caps) # more)"
| "matches (Group n r) (s, caps) =
     map (\<lambda>st'. (fst st', (n, take (length s - length (fst st')) s) # snd st'))
         (matches r (s, caps))"
| "matches (LookAhead r) (s, caps) =
     (case matches r (s, caps) of [] \<Rightarrow> [] | st' # _ \<Rightarrow> [(s, snd st')])"
| "matches InputEnd (s, caps) = (if s = [] then [(s, caps)] else [])"
  by pat_completeness auto
termination
  by (relation "measures [\<lambda>(r, st). size r, \<lambda>(r, st). length (fst st)]") auto

text \<open>
  \<open>RegExp.prototype.exec\<close> on a regular expression with the \<open>g\<close> flag: the search starts at
  \<open>lastIndex\<close>, tries each start position up to and including the end of the input, and
  on success reports the start position (\<open>match.index\<close>), the captures, and the end of the
  match, which becomes the new \<open>lastIndex\<close>. On failure the result is \<open>null\<close>.
\<close>

record rmatch =
  mIndex :: nat
  mEnd :: nat
  mCaps :: captures

fun scanFrom :: "regex \<Rightarrow> ustring \<Rightarrow> nat \<Rightarrow> rmatch option" where
  "scanFrom r s i =
     (case matches r (s, []) of
        st' # _ \<Rightarrow> Some \<lparr>mIndex = i, mEnd = i + (length s - length (fst st')), mCaps = snd st'\<rparr>
      | [] \<Rightarrow> (case s of [] \<Rightarrow> None | _ # s' \<Rightarrow> scanFrom r s' (Suc i)))"

definition regexExec :: "regex \<Rightarrow> ustring \<Rightarrow> nat \<Rightarrow> rmatch option" where
  "regexExec r text lastIndex =
     (if length text < lastIndex then None else scanFrom r (drop lastIndex text) lastIndex)"

text \<open>
  The loop \<open>while ((match = regex.exec(text)) !== null) { ... }\<close> that collects every
  match. Nothing in the loop guarantees that \<open>lastIndex\<close> advances, so the loop is a
  partial function: \<open>None\<close> is a loop that never ends.
\<close>

partial_function (option) execAll :: "regex \<Rightarrow> ustring \<Rightarrow> nat \<Rightarrow> rmatch list option" where
  "execAll r text lastIndex =
     (case regexExec r text lastIndex of
        None \<Rightarrow> Some []
      | Some m \<Rightarrow> Option.bind (execAll r text (mEnd m)) (\<lambda>ms. Some (m # ms)))"


section \<open>Errors\<close>

text \<open>
  What the extension's functions can throw: the \<open>SyntaxError\<close> of the \<open>RegExp\<close>
  constructor, the \<open>TypeError\<close> of a method call on \<open>undefined\<close>, the rejection of
  \<open>openTextDocument\<close> for a file that cannot be opened as text, and the error of
  \<open>lineAt\<close> for a line that does not exist. \<open>NotModelled\<close> is not an error of the
  program: it marks a pattern that uses syntax outside the fragment formalised here, about
  which nothing is stated.
\<close>

type_synonym uri = string

datatype error = SyntaxError | TypeError | ReadFailure uri | IllegalLine | NotModelled


section \<open>The constructor \<open>new RegExp(key, 'g')\<close>\<close>

text \<open>
  The pattern grammar on the fragment: a sequence of terms, each a pattern character, the
  dot, the assertion \<open>$\<close>, or a backslash followed by a syntax character or a slash
  (an identity escape); an atom may carry one of the quantifiers \<open>*\<close>, \<open>+\<close>, \<open>?\<close>,
  itself optionally followed by \<open>?\<close> (lazy). A quantifier with nothing to repeat and a
  backslash at the end of the pattern are syntax errors. Groups, classes, braces,
  alternation, \<open>^\<close> and the other escapes are outside the fragment.
\<close>

definition isSyntaxChar :: "cu \<Rightarrow> bool" where
  "isSyntaxChar c \<longleftrightarrow> c = 0x5E \<or> c = 0x24 \<or> c = 0x5C \<or> c = 0x2E \<or> c = 0x2A \<or> c = 0x2B
     \<or> c = 0x3F \<or> c = 0x28 \<or> c = 0x29 \<or> c = 0x5B \<or> c = 0x5D \<or> c = 0x7B \<or> c = 0x7D
     \<or> c = 0x7C"

definition isQuantChar :: "cu \<Rightarrow> bool" where
  "isQuantChar c \<longleftrightarrow> c = 0x2A \<or> c = 0x2B \<or> c = 0x3F"

definition quantified :: "cu \<Rightarrow> bool \<Rightarrow> regex \<Rightarrow> regex" where
  "quantified q g a = (if q = 0x2A then Star g a else if q = 0x2B then Plus g a else Opt g a)"

fun parseQuantifier :: "regex \<Rightarrow> ustring \<Rightarrow> regex \<times> ustring" where
  "parseQuantifier a [] = (a, [])"
| "parseQuantifier a [q] = (if isQuantChar q then (quantified q True a, []) else (a, [q]))"
| "parseQuantifier a (q # l # s) =
     (if isQuantChar q
      then (if l = 0x3F then (quantified q False a, s) else (quantified q True a, l # s))
      else (a, q # l # s))"

text \<open>
  \<open>parseAtom c s\<close> reads the atom or assertion that starts with \<open>c\<close>: the result is the
  term, whether it may be quantified, and the rest of the pattern.
\<close>

definition parseAtom :: "cu \<Rightarrow> ustring \<Rightarrow> error + (regex \<times> bool \<times> ustring)" where
  "parseAtom c s =
     (if isQuantChar c then Inl SyntaxError
      else if c = 0x5C then
        (case s of
           [] \<Rightarrow> Inl SyntaxError
         | e # s' \<Rightarrow> if isSyntaxChar e \<or> e = 0x2F then Inr (Chr e, True, s') else Inl NotModelled)
      else if c = 0x2E then Inr (Dot, True, s)
      else if c = 0x24 then Inr (InputEnd, False, s)
      else if isSyntaxChar c then Inl NotModelled
      else Inr (Chr c, True, s))"

lemma parseQuantifier_length: "length (snd (parseQuantifier a s)) \<le> length s"
  by (induction a s rule: parseQuantifier.induct) auto

lemma parseAtom_length: "parseAtom c s = Inr (a, b, s1) \<Longrightarrow> length s1 \<le> length s"
  by (auto simp: parseAtom_def split: if_splits list.splits)

function parseTerms :: "ustring \<Rightarrow> error + regex" where
  "parseTerms [] = Inr Empty"
| "parseTerms (c # s) =
     (case parseAtom c s of
        Inl e \<Rightarrow> Inl e
      | Inr (a, quantifiable, s1) \<Rightarrow>
          (case parseTerms (if quantifiable then snd (parseQuantifier a s1) else s1) of
             Inl e \<Rightarrow> Inl e
           | Inr r \<Rightarrow> Inr (Seq (if quantifiable then fst (parseQuantifier a s1) else a) r)))"
  by pat_completeness auto
termination
proof (relation "measure length")
  show "wf (measure length)" by simp
next
  fix c :: cu and s x2 a y quantifiable s1
  assume "parseAtom c s = Inr x2" "(a, y) = x2" "(quantifiable, s1) = y"
  then have "length s1 \<le> length s"
    using parseAtom_length [of c s a quantifiable s1] by simp
  moreover have "length (snd (parseQuantifier a s1)) \<le> length s1"
    by (rule parseQuantifier_length)
  ultimately show "(if quantifiable then snd (parseQuantifier a s1) else s1, c # s)
      \<in> measure length"
    by simp
qed

definition newRegExp :: "ustring \<Rightarrow> error + regex" where
  "newRegExp pattern = parseTerms pattern"


section \<open>Documents, positions and ranges of the editor\<close>

text \<open>
  A text document is its text. The editor splits it into lines at \<open>\r\n\<close>, \<open>\r\<close> and
  \<open>\n\<close>; \<open>positionAt\<close> turns an offset into a line and a character, clamped to the line;
  \<open>lineAt\<close> gives the text of a line and its range, and throws for a line that does not
  exist. A range contains a position when the position is neither before its start nor
  after its end: both ends are included.
\<close>

record vrange =
  startLine :: nat
  startChar :: nat
  endLine :: nat
  endChar :: nat

fun splitLines :: "ustring \<Rightarrow> (ustring \<times> nat) list" where
  "splitLines [] = [([], 0)]"
| "splitLines (c # s) =
     (if c = CR then
        (case s of
           [] \<Rightarrow> [([], 1), ([], 0)]
         | d # s' \<Rightarrow> if d = LF then ([], 2) # splitLines s' else ([], 1) # splitLines s)
      else if c = LF then ([], 1) # splitLines s
      else (case splitLines s of
              [] \<Rightarrow> [([c], 0)]
            | (l, e) # ls \<Rightarrow> (c # l, e) # ls))"

fun positionIn :: "(ustring \<times> nat) list \<Rightarrow> nat \<Rightarrow> nat \<Rightarrow> nat \<times> nat" where
  "positionIn [] n off = (n, 0)"
| "positionIn [(l, e)] n off = (n, min off (length l))"
| "positionIn ((l, e) # ls) n off =
     (if off < length l + e then (n, min off (length l))
      else positionIn ls (Suc n) (off - (length l + e)))"

definition positionAt :: "ustring \<Rightarrow> nat \<Rightarrow> nat \<times> nat" where
  "positionAt text off = positionIn (splitLines text) 0 off"

definition lineAt :: "ustring \<Rightarrow> nat \<Rightarrow> error + (ustring \<times> vrange)" where
  "lineAt text n =
     (let ls = splitLines text
      in if n < length ls
         then Inr (fst (ls ! n),
                   \<lparr>startLine = n, startChar = 0, endLine = n, endChar = length (fst (ls ! n))\<rparr>)
         else Inl IllegalLine)"

definition rangeContains :: "vrange \<Rightarrow> nat \<times> nat \<Rightarrow> bool" where
  "rangeContains r p \<longleftrightarrow>
     \<not> (fst p < startLine r \<or> (fst p = startLine r \<and> snd p < startChar r))
     \<and> \<not> (endLine r < fst p \<or> (endLine r = fst p \<and> endChar r < snd p))"


section \<open>Notes and \<open>parseNoteFiles\<close>\<close>

record noteDefinition =
  key :: ustring
  value' :: ustring
  uri :: uri
  range' :: vrange

text \<open>
  The repository holds two versions of the extension, which differ in the regular
  expression of \<open>parseNoteFiles\<close>: \<open>src/extension.ts\<close> (here \<open>Strict\<close>) requires a
  full-width colon after the closing bracket, the other file (here \<open>Tolerant\<close>) does not.
  With \<^verbatim>\<open>[\<close> and \<^verbatim>\<open>]\<close> written for the two lenticular brackets and
  \<^verbatim>\<open>:\<close> for the full-width colon, the strict expression is
  \<^verbatim>\<open>/[([^]]+)]:([\s\S]*?)(?=\n[|$)/g\<close> and the tolerant one is
  \<^verbatim>\<open>/[([^]]+)]([\s\S]*?)(?=\n[|$)/g\<close>.
\<close>

datatype variant = Strict | Tolerant

definition noteRegex :: "variant \<Rightarrow> regex" where
  "noteRegex v =
     Seq (Chr openB)
    (Seq (Group 1 (Plus True (Class True [CChar closeB])))
    (Seq (Chr closeB)
    (Seq (case v of Strict \<Rightarrow> Chr colonF | Tolerant \<Rightarrow> Empty)
    (Seq (Group 2 (Star False (Class False [CSpace, CNotSpace])))
         (LookAhead (Alt (Seq (Chr LF) (Chr openB)) InputEnd))))))"

definition capture :: "rmatch \<Rightarrow> nat \<Rightarrow> error + ustring" where
  "capture m n = (case map_of (mCaps m) n of None \<Rightarrow> Inl TypeError | Some s \<Rightarrow> Inr s)"

text \<open>The body of the loop over the matches: zero or one note pushed, or an exception.\<close>

definition noteOfMatch :: "uri \<Rightarrow> ustring \<Rightarrow> rmatch \<Rightarrow> error + noteDefinition list" where
  "noteOfMatch fileUri text m =
     (case capture m 1 of
        Inl e \<Rightarrow> Inl e
      | Inr k \<Rightarrow>
     (case capture m 2 of
        Inl e \<Rightarrow> Inl e
      | Inr v \<Rightarrow>
     (case lineAt text (fst (positionAt text (mIndex m))) of
        Inl e \<Rightarrow> Inl e
      | Inr line \<Rightarrow>
          if trim k \<noteq> [] \<and> trim v \<noteq> []
          then Inr [\<lparr>key = trim k, value' = trim v, uri = fileUri, range' = snd line\<rparr>]
          else Inr [])))"

fun notesOfMatches :: "uri \<Rightarrow> ustring \<Rightarrow> rmatch list \<Rightarrow> error + noteDefinition list" where
  "notesOfMatches fileUri text [] = Inr []"
| "notesOfMatches fileUri text (m # ms) =
     (case noteOfMatch fileUri text m of
        Inl e \<Rightarrow> Inl e
      | Inr ns \<Rightarrow>
          (case notesOfMatches fileUri text ms of
             Inl e \<Rightarrow> Inl e
           | Inr ns' \<Rightarrow> Inr (ns @ ns')))"

text \<open>
  One iteration of the loop over the files, after the document was opened. The outer
  \<open>option\<close> is \<open>None\<close> when the loop over the matches never ends.
\<close>

definition parseDocument :: "variant \<Rightarrow> uri \<Rightarrow> ustring \<Rightarrow> (error + noteDefinition list) option" where
  "parseDocument v fileUri text =
     (case execAll (noteRegex v) text 0 of
        None \<Rightarrow> None
      | Some ms \<Rightarrow> Some (notesOfMatches fileUri text ms))"

text \<open>
  The workspace is the list of files that \<open>findFiles('**/*.des')\<close> returns, each with its
  text, or \<open>None\<close> when \<open>openTextDocument\<close> rejects. The function has no exception
  handler: a rejection ends it, and the notes collected so far are lost with it.
\<close>

type_synonym workspace = "(uri \<times> ustring option) list"

fun parseNoteFiles :: "variant \<Rightarrow> workspace \<Rightarrow> (error + noteDefinition list) option" where
  "parseNoteFiles v [] = Some (Inr [])"
| "parseNoteFiles v ((fileUri, content) # files) =
     (case content of
        None \<Rightarrow> Some (Inl (ReadFailure fileUri))
      | Some text \<Rightarrow>
     (case parseDocument v fileUri text of
        None \<Rightarrow> None
      | Some (Inl e) \<Rightarrow> Some (Inl e)
      | Some (Inr ns) \<Rightarrow>
     (case parseNoteFiles v files of
        None \<Rightarrow> None
      | Some (Inl e) \<Rightarrow> Some (Inl e)
      | Some (Inr ns') \<Rightarrow> Some (Inr (ns @ ns')))))"


section \<open>Highlighting: \<open>updateDecorations\<close>\<close>

text \<open>
  A decoration is \<open>new Range(positionAt(match.index), positionAt(match.index + key.length))\<close>;
  a span records the two offsets handed to \<open>positionAt\<close>. \<open>findAllSpans\<close> is the loop
  over the keys inside \<open>updateDecorations\<close>: for each key a regular expression is built
  from the key itself, and every match of it in the text is collected.
\<close>

record span =
  startOffset :: nat
  endOffset :: nat

definition spansOfKey :: "ustring \<Rightarrow> rmatch list \<Rightarrow> span list" where
  "spansOfKey k ms = map (\<lambda>m. \<lparr>startOffset = mIndex m, endOffset = mIndex m + length k\<rparr>) ms"

fun findAllSpans :: "ustring list \<Rightarrow> ustring \<Rightarrow> (error + span list) option" where
  "findAllSpans [] text = Some (Inr [])"
| "findAllSpans (k # keys) text =
     (case newRegExp k of
        Inl e \<Rightarrow> Some (Inl e)
      | Inr regex \<Rightarrow>
     (case execAll regex text 0 of
        None \<Rightarrow> None
      | Some ms \<Rightarrow>
     (case findAllSpans keys text of
        None \<Rightarrow> None
      | Some (Inl e) \<Rightarrow> Some (Inl e)
      | Some (Inr spans) \<Rightarrow> Some (Inr (spansOfKey k ms @ spans)))))"

record textEditor =
  languageId :: string
  documentText :: ustring

datatype decorationUpdate = NoUpdate | SetDecorations "span list"

text \<open>
  The tolerant file also returns at once while its decoration type does not exist yet
  (\<open>hasDecorationType\<close>); in the strict file the decoration type is a constant.
\<close>

definition updateDecorations ::
  "variant \<Rightarrow> bool \<Rightarrow> workspace \<Rightarrow> textEditor option \<Rightarrow> (error + decorationUpdate) option" where
  "updateDecorations v hasDecorationType ws activeEditor =
     (case activeEditor of
        None \<Rightarrow> Some (Inr NoUpdate)
      | Some editor \<Rightarrow>
          if languageId editor \<noteq> ''outline'' \<or> (v = Tolerant \<and> \<not> hasDecorationType)
          then Some (Inr NoUpdate)
          else
            (case parseNoteFiles v ws of
               None \<Rightarrow> None
             | Some (Inl e) \<Rightarrow> Some (Inl e)
             | Some (Inr allNotes) \<Rightarrow>
                 if map key allNotes = [] then Some (Inr (SetDecorations []))
                 else
                   (case findAllSpans (map key allNotes) (documentText editor) of
                      None \<Rightarrow> None
                    | Some (Inl e) \<Rightarrow> Some (Inl e)
                    | Some (Inr spans) \<Rightarrow> Some (Inr (SetDecorations spans)))))"


section \<open>Hover and definition lookup\<close>

text \<open>
  Both providers run the same search on the line under the cursor: for each note in turn,
  every match of the regular expression built from its key is tried, and the first one
  whose range \<open>(line, match.index)\<close> to \<open>(line, match.index + key.length)\<close> contains the
  position ends the search. \<open>findContaining\<close> is the inner loop; its result is \<open>Some (Some i)\<close>
  when a match at index \<open>i\<close> contains the position, \<open>Some None\<close> when the matches run out,
  and \<open>None\<close> when the loop never ends.
\<close>

definition keyRange :: "nat \<Rightarrow> nat \<Rightarrow> nat \<Rightarrow> vrange" where
  "keyRange line i klen = \<lparr>startLine = line, startChar = i, endLine = line, endChar = i + klen\<rparr>"

partial_function (option) findContaining ::
  "regex \<Rightarrow> ustring \<Rightarrow> nat \<Rightarrow> nat \<times> nat \<Rightarrow> nat \<Rightarrow> nat option option" where
  "findContaining regex lineText klen position lastIndex =
     (case regexExec regex lineText lastIndex of
        None \<Rightarrow> Some None
      | Some m \<Rightarrow>
          if rangeContains (keyRange (fst position) (mIndex m) klen) position
          then Some (Some (mIndex m))
          else findContaining regex lineText klen position (mEnd m))"

fun locate ::
  "noteDefinition list \<Rightarrow> ustring \<Rightarrow> nat \<times> nat \<Rightarrow> (error + (noteDefinition \<times> vrange) option) option"
where
  "locate [] lineText position = Some (Inr None)"
| "locate (note # notes) lineText position =
     (case newRegExp (key note) of
        Inl e \<Rightarrow> Some (Inl e)
      | Inr regex \<Rightarrow>
     (case findContaining regex lineText (length (key note)) position 0 of
        None \<Rightarrow> None
      | Some (Some i) \<Rightarrow> Some (Inr (Some (note, keyRange (fst position) i (length (key note)))))
      | Some None \<Rightarrow> locate notes lineText position))"

record hover =
  hoverText :: ustring
  hoverSource :: uri
  hoverRange :: vrange

record location =
  targetUri :: uri
  targetRange :: vrange

definition provideHover ::
  "variant \<Rightarrow> workspace \<Rightarrow> ustring \<Rightarrow> nat \<times> nat \<Rightarrow> (error + hover option) option" where
  "provideHover v ws document position =
     (case parseNoteFiles v ws of
        None \<Rightarrow> None
      | Some (Inl e) \<Rightarrow> Some (Inl e)
      | Some (Inr allNotes) \<Rightarrow>
     (case lineAt document (fst position) of
        Inl e \<Rightarrow> Some (Inl e)
      | Inr line \<Rightarrow>
     (case locate allNotes (fst line) position of
        None \<Rightarrow> None
      | Some (Inl e) \<Rightarrow> Some (Inl e)
      | Some (Inr None) \<Rightarrow> Some (Inr None)
      | Some (Inr (Some (note, r))) \<Rightarrow>
          Some (Inr (Some \<lparr>hoverText = value' note, hoverSource = uri note, hoverRange = r\<rparr>)))))"

definition provideDefinition ::
  "variant \<Rightarrow> workspace \<Rightarrow> ustring \<Rightarrow> nat \<times> nat \<Rightarrow> (error + location option) option" where
  "provideDefinition v ws document position =
     (case parseNoteFiles v ws of
        None \<Rightarrow> None
      | Some (Inl e) \<Rightarrow> Some (Inl e)
      | Some (Inr allNotes) \<Rightarrow>
     (case lineAt document (fst position) of
        Inl e \<Rightarrow> Some (Inl e)
      | Inr line \<Rightarrow>
     (case locate allNotes (fst line) position of
        None \<Rightarrow> None
      | Some (Inl e) \<Rightarrow> Some (Inl e)
      | Some (Inr None) \<Rightarrow> Some (Inr None)
      | Some (Inr (Some (note, r))) \<Rightarrow>
          Some (Inr (Some \<lparr>targetUri = uri note, targetRange = range' note\<rparr>)))))"

declare execAll.simps [code]
declare findContaining.simps [code]


section \<open>\<open>parseNoteFiles\<close> with its variables as a store\<close>

text \<open>
  \<open>parseNoteFiles\<close> once more, this time as the imperative code reads: the two things
  it changes, the array \<open>allNotes\<close> and the \<open>lastIndex\<close> of the regular expression in
  scope, are a store that each step receives and returns. \<open>const allNotes = []\<close> and
  the regular expression literal in the body of the loop over the files are assignments
  to the store; \<open>exec\<close> reads \<open>lastIndex\<close> and writes it (the end of the match, or 0
  when there is none); \<open>push\<close> appends to \<open>allNotes\<close>. A call starts in whatever store
  it is given, for instance the one a previous call left behind.
\<close>

record store =
  allNotes :: "noteDefinition list"
  regexLastIndex :: nat

text \<open>The loop over the matches, with its body.\<close>

partial_function (option) noteLoop ::
  "variant \<Rightarrow> uri \<Rightarrow> ustring \<Rightarrow> store \<Rightarrow> ((error + unit) \<times> store) option" where
  "noteLoop v fileUri text st =
     (case regexExec (noteRegex v) text (regexLastIndex st) of
        None \<Rightarrow> Some (Inr (), st\<lparr>regexLastIndex := 0\<rparr>)
      | Some m \<Rightarrow>
          (case noteOfMatch fileUri text m of
             Inl e \<Rightarrow> Some (Inl e, st\<lparr>regexLastIndex := mEnd m\<rparr>)
           | Inr ns \<Rightarrow>
               noteLoop v fileUri text
                 (st\<lparr>regexLastIndex := mEnd m, allNotes := allNotes st @ ns\<rparr>)))"

text \<open>The loop over the files.\<close>

fun fileLoop :: "variant \<Rightarrow> workspace \<Rightarrow> store \<Rightarrow> ((error + unit) \<times> store) option" where
  "fileLoop v [] st = Some (Inr (), st)"
| "fileLoop v ((fileUri, content) # files) st =
     (case content of
        None \<Rightarrow> Some (Inl (ReadFailure fileUri), st)
      | Some text \<Rightarrow>
          (case noteLoop v fileUri text (st\<lparr>regexLastIndex := 0\<rparr>) of
             None \<Rightarrow> None
           | Some (Inl e, st') \<Rightarrow> Some (Inl e, st')
           | Some (Inr u, st') \<Rightarrow> fileLoop v files st'))"

definition parseNoteFilesFrom ::
  "variant \<Rightarrow> workspace \<Rightarrow> store \<Rightarrow> ((error + noteDefinition list) \<times> store) option" where
  "parseNoteFilesFrom v ws st =
     (case fileLoop v ws (st\<lparr>allNotes := []\<rparr>) of
        None \<Rightarrow> None
      | Some (Inl e, st') \<Rightarrow> Some (Inl e, st')
      | Some (Inr u, st') \<Rightarrow> Some (Inr (allNotes st'), st'))"

declare noteLoop.simps [code]


section \<open>The specification's wording, as definitions\<close>

text \<open>
  The definitions of this section do not come from the code: they write down what the
  specification says, so that the code can be compared with it.

  Literal search: the offsets of the occurrences of the character sequence \<open>k\<close> in \<open>s\<close>,
  left to right and non-overlapping (the search resumes after each occurrence); \<open>i\<close> is
  the offset of \<open>s\<close> in the whole text. An empty key has no occurrences.
\<close>

function occurrencesFrom :: "ustring \<Rightarrow> ustring \<Rightarrow> nat \<Rightarrow> nat list" where
  "occurrencesFrom k s i =
     (if k = [] \<or> s = [] then []
      else if take (length k) s = k
           then i # occurrencesFrom k (drop (length k) s) (i + length k)
           else occurrencesFrom k (tl s) (Suc i))"
  by pat_completeness auto
termination
  by (relation "measure (\<lambda>(k, s, i). length s)") auto

declare occurrencesFrom.simps [simp del]

definition occurrences :: "ustring \<Rightarrow> ustring \<Rightarrow> nat list" where
  "occurrences k text = occurrencesFrom k text 0"

text \<open>
  Locate-at-position in the specification's words: the first note, in list order, whose
  key has an occurrence on the line whose span contains the column, a span being the
  half-open range from its start offset to its end offset.
\<close>

definition specFindAt :: "noteDefinition list \<Rightarrow> ustring \<Rightarrow> nat \<Rightarrow> noteDefinition option" where
  "specFindAt notes lineText column =
     find (\<lambda>n. list_ex (\<lambda>i. i \<le> column \<and> column < i + length (key n))
                        (occurrences (key n) lineText)) notes"


section \<open>What the note expressions match\<close>

text \<open>
  The definitions of this section describe the two note expressions directly, by recursion
  on the text; the lemmas further down prove that the matcher does exactly this
  (\<open>matches_noteRegex\<close>, \<open>execAll_noteRegex\<close>, \<open>parseDocument_scannedNotes\<close>).

  The expression matches at the start of \<open>s\<close> when \<open>s\<close> begins with the opening
  bracket, a non-empty run of characters other than the closing bracket, and the closing
  bracket, in the strict expression followed by the full-width colon; \<open>markerAt\<close> gives
  the first capture and the text after the bracket (and colon). The second capture,
  \<open>capturedValue\<close>, runs up to the first place where the lookahead holds: a line feed
  followed by the opening bracket, or the end of the input.
\<close>

definition markerAt :: "variant \<Rightarrow> ustring \<Rightarrow> (ustring \<times> ustring) option" where
  "markerAt v s =
     (case s of
        [] \<Rightarrow> None
      | c # s1 \<Rightarrow>
          if c \<noteq> openB then None
          else
            (let k = takeWhile (\<lambda>x. x \<noteq> closeB) s1; r = dropWhile (\<lambda>x. x \<noteq> closeB) s1
             in if k = [] \<or> r = [] then None
                else
                  (case v of
                     Tolerant \<Rightarrow> Some (k, tl r)
                   | Strict \<Rightarrow>
                       (case tl r of
                          [] \<Rightarrow> None
                        | d # r' \<Rightarrow> if d = colonF then Some (k, r') else None))))"

fun capturedValue :: "ustring \<Rightarrow> ustring" where
  "capturedValue [] = []"
| "capturedValue [c] = [c]"
| "capturedValue (c # d # s) = (if c = LF \<and> d = openB then [] else c # capturedValue (d # s))"

lemma markerAt_length: "markerAt v s = Some (k, rest) \<Longrightarrow> length rest < length s"
proof -
  assume a: "markerAt v s = Some (k, rest)"
  have d: "length (dropWhile P xs) \<le> length xs" for P and xs :: ustring
    by (induction xs) auto
  have t: "length (tl xs) \<le> length xs" for xs :: ustring
    by (cases xs) auto
  from a obtain c s1 where s: "s = c # s1" "c = openB"
    by (cases s) (auto simp: markerAt_def split: if_splits)
  let ?r = "dropWhile (\<lambda>x. x \<noteq> closeB) s1"
  have "rest = tl ?r \<or> (\<exists>d. tl ?r = d # rest)"
    using a s by (cases v) (auto simp: markerAt_def Let_def split: if_splits list.splits)
  then have "length rest \<le> length (tl ?r)"
  proof
    assume "rest = tl ?r"
    then show ?thesis by simp
  next
    assume "\<exists>d. tl ?r = d # rest"
    then obtain d where "tl ?r = d # rest" ..
    then have "length (tl ?r) = Suc (length rest)" by (simp del: length_tl)
    then show ?thesis by linarith
  qed
  moreover have "length (tl ?r) \<le> length s1"
    using d [of "\<lambda>x. x \<noteq> closeB" s1] t [of ?r] by linarith
  ultimately show ?thesis using s by simp
qed

text \<open>
  The successive matches in \<open>s\<close> (which sits at offset \<open>i\<close>): each with its offset and
  its two captures; the search resumes where the match ended.
\<close>

function markerScan :: "variant \<Rightarrow> ustring \<Rightarrow> nat \<Rightarrow> (nat \<times> ustring \<times> ustring) list" where
  "markerScan v s i =
     (case s of
        [] \<Rightarrow> []
      | c # s' \<Rightarrow>
          (case markerAt v s of
             None \<Rightarrow> markerScan v s' (Suc i)
           | Some (k, rest) \<Rightarrow>
               (i, k, capturedValue rest)
                 # markerScan v (drop (length (capturedValue rest)) rest)
                     (i + (length s - length rest) + length (capturedValue rest))))"
  by pat_completeness auto
termination
proof (relation "measure (\<lambda>(v, s, i). length s)")
  show "wf (measure (\<lambda>(v, s, i). length s))" by simp
next
  fix v :: variant and s :: ustring and i :: nat and c s'
  assume "s = c # s'"
  then show "((v, s', Suc i), (v, s, i)) \<in> measure (\<lambda>(v, s, i). length s)" by simp
next
  fix v :: variant and s :: ustring and i :: nat and c s' x2 k rest
  assume "markerAt v s = Some x2" "(k, rest) = x2"
  then have "length rest < length s"
    using markerAt_length [of v s k rest] by simp
  then show "((v, drop (length (capturedValue rest)) rest,
               i + (length s - length rest) + length (capturedValue rest)), (v, s, i))
             \<in> measure (\<lambda>(v, s, i). length s)"
    by simp
qed

declare markerScan.simps [simp del]

text \<open>
  From a match to a note: the range of the line on which the match starts, and the note
  with both captures trimmed, dropped when either is empty.
\<close>

definition lineRangeAt :: "ustring \<Rightarrow> nat \<Rightarrow> vrange" where
  "lineRangeAt text off =
     (let n = fst (positionAt text off)
      in \<lparr>startLine = n, startChar = 0, endLine = n,
          endChar = length (fst (splitLines text ! n))\<rparr>)"

definition entryOf :: "uri \<Rightarrow> ustring \<Rightarrow> nat \<times> ustring \<times> ustring \<Rightarrow> noteDefinition list" where
  "entryOf fileUri text c =
     (if trim (fst (snd c)) \<noteq> [] \<and> trim (snd (snd c)) \<noteq> []
      then [\<lparr>key = trim (fst (snd c)), value' = trim (snd (snd c)), uri = fileUri,
             range' = lineRangeAt text (fst c)\<rparr>]
      else [])"

definition scannedNotes :: "variant \<Rightarrow> uri \<Rightarrow> ustring \<Rightarrow> noteDefinition list" where
  "scannedNotes v fileUri text = concat (map (entryOf fileUri text) (markerScan v text 0))"


section \<open>The note grammar in the specification's words\<close>

text \<open>
  Like \<open>occurrences\<close> and \<open>specFindAt\<close>, the definitions of this section write down
  the specification, not the code.

  A key marker is text enclosed by the bracket pair, optionally followed by the separator:
  in the strict variant the full-width colon must follow the closing bracket, in the
  tolerant variant it may. \<open>specMarker\<close> gives the bracket contents, which may be
  empty, and the text after the marker.
\<close>

definition specMarker :: "variant \<Rightarrow> ustring \<Rightarrow> (ustring \<times> ustring) option" where
  "specMarker v s =
     (case s of
        [] \<Rightarrow> None
      | c # s1 \<Rightarrow>
          if c \<noteq> openB then None
          else
            (let k = takeWhile (\<lambda>x. x \<noteq> closeB) s1; r = dropWhile (\<lambda>x. x \<noteq> closeB) s1
             in if r = [] then None
                else
                  (case tl r of
                     [] \<Rightarrow> (case v of Strict \<Rightarrow> None | Tolerant \<Rightarrow> Some (k, []))
                   | d # r' \<Rightarrow>
                       if d = colonF then Some (k, r')
                       else (case v of Strict \<Rightarrow> None | Tolerant \<Rightarrow> Some (k, d # r')))))"

text \<open>
  The value of a marker is every character after the marker up to, but not including, the
  start of the next line that begins with a key marker, or up to the end of the input.
\<close>

fun specValue :: "variant \<Rightarrow> ustring \<Rightarrow> ustring" where
  "specValue v [] = []"
| "specValue v (c # s) = c # (if c = LF \<and> specMarker v s \<noteq> None then [] else specValue v s)"

lemma specMarker_length: "specMarker v s = Some (k, rest) \<Longrightarrow> length rest < length s"
proof -
  assume a: "specMarker v s = Some (k, rest)"
  have d: "length (dropWhile P xs) \<le> length xs" for P and xs :: ustring
    by (induction xs) auto
  from a obtain s1 where s: "s = openB # s1"
    by (cases s) (auto simp: specMarker_def split: if_splits)
  let ?r = "dropWhile (\<lambda>x. x \<noteq> closeB) s1"
  from a s have nz: "?r \<noteq> []"
    by (auto simp: specMarker_def Let_def split: if_splits)
  have "rest = tl ?r \<or> (\<exists>d. tl ?r = d # rest)"
    using a s by (cases v) (auto simp: specMarker_def Let_def split: if_splits list.splits)
  then have "length rest \<le> length (tl ?r)"
  proof
    assume "rest = tl ?r"
    then show ?thesis by simp
  next
    assume "\<exists>d. tl ?r = d # rest"
    then obtain d where "tl ?r = d # rest" ..
    then have "length (tl ?r) = Suc (length rest)" by (simp del: length_tl)
    then show ?thesis by linarith
  qed
  moreover have "length (tl ?r) < length ?r" using nz by (cases ?r) auto
  moreover have "length ?r \<le> length s1" by (rule d)
  ultimately show ?thesis using s by simp
qed

lemma specValue_length: "length (specValue v s) \<le> length s"
  by (induction s) auto

text \<open>
  Scanning left to right: at each key marker the bracket contents are the candidate key
  and the value is the candidate value; the scan goes on after the value.
\<close>

function specScan :: "variant \<Rightarrow> ustring \<Rightarrow> nat \<Rightarrow> (nat \<times> ustring \<times> ustring) list" where
  "specScan v s i =
     (case s of
        [] \<Rightarrow> []
      | c # s' \<Rightarrow>
          (case specMarker v s of
             None \<Rightarrow> specScan v s' (Suc i)
           | Some (k, rest) \<Rightarrow>
               (i, k, specValue v rest)
                 # specScan v (drop (length (specValue v rest)) rest)
                     (i + (length s - length rest) + length (specValue v rest))))"
  by pat_completeness auto
termination
proof (relation "measure (\<lambda>(v, s, i). length s)")
  show "wf (measure (\<lambda>(v, s, i). length s))" by simp
next
  fix v :: variant and s :: ustring and i :: nat and c s'
  assume "s = c # s'"
  then show "((v, s', Suc i), (v, s, i)) \<in> measure (\<lambda>(v, s, i). length s)" by simp
next
  fix v :: variant and s :: ustring and i :: nat and c s' x2 k rest
  assume "specMarker v s = Some x2" "(k, rest) = x2"
  then have "length rest < length s"
    using specMarker_length [of v s k rest] by simp
  then show "((v, drop (length (specValue v rest)) rest,
               i + (length s - length rest) + length (specValue v rest)), (v, s, i))
             \<in> measure (\<lambda>(v, s, i). length s)"
    by simp
qed

declare specScan.simps [simp del]

text \<open>
  The notes of a source: key and value trimmed, the candidate dropped when either is
  empty, the definition span being the line on which the marker starts (\<open>entryOf\<close>).
\<close>

definition specNotes :: "variant \<Rightarrow> uri \<Rightarrow> ustring \<Rightarrow> noteDefinition list" where
  "specNotes v fileUri t = concat (map (entryOf fileUri t) (specScan v t 0))"

text \<open>
  A well-formed source: every line after a line break that begins with the opening bracket
  begins with a key marker; no bracket pair is empty; and in the tolerant variant no
  closing bracket is directly followed by the full-width colon.
\<close>

fun wellFormedSource :: "variant \<Rightarrow> ustring \<Rightarrow> bool" where
  "wellFormedSource v [] = True"
| "wellFormedSource v (c # s) =
     ((c = LF \<and> take 1 s = [openB] \<longrightarrow> specMarker v s \<noteq> None)
      \<and> (c = openB \<longrightarrow> take 1 s \<noteq> [closeB])
      \<and> (v = Tolerant \<and> c = closeB \<longrightarrow> take 1 s \<noteq> [colonF])
      \<and> wellFormedSource v s)"


section \<open>Example sources and auxiliary definitions\<close>

text \<open>
  A note source holding a single entry, written in the grammar of the given variant.
\<close>

definition noteText :: "variant \<Rightarrow> ustring \<Rightarrow> ustring \<Rightarrow> ustring" where
  "noteText v k val =
     openB # k @ closeB # (case v of Strict \<Rightarrow> [colonF] | Tolerant \<Rightarrow> []) @ val"

definition outlineEditor :: "ustring \<Rightarrow> textEditor option" where
  "outlineEditor text = Some \<lparr>languageId = ''outline'', documentText = text\<rparr>"

text \<open>
  The match that \<open>exec\<close> reports for a marker found by the scan: its offset, the offset
  after its value, and the two captures.
\<close>

definition matchOf :: "variant \<Rightarrow> nat \<times> ustring \<times> ustring \<Rightarrow> rmatch" where
  "matchOf v c =
     \<lparr>mIndex = fst c,
      mEnd = fst c + length (fst (snd c)) + (case v of Strict \<Rightarrow> 3 | Tolerant \<Rightarrow> 2)
               + length (snd (snd c)),
      mCaps = [(2, snd (snd c)), (1, fst (snd c))]\<rparr>"

text \<open>
  The notes that one source contributes to the result of \<open>parseNoteFiles\<close>, read off the
  code: those of \<open>parseDocument\<close> for a source that can be read.
\<close>

definition notesOfSource :: "variant \<Rightarrow> uri \<times> ustring option \<Rightarrow> noteDefinition list" where
  "notesOfSource v f =
     (case snd f of
        None \<Rightarrow> []
      | Some text \<Rightarrow>
          (case parseDocument v (fst f) text of
             Some (Inr ns) \<Rightarrow> ns
           | _ \<Rightarrow> []))"

text \<open>
  Locate-at-position with both ends of a span included, as \<open>Range.contains\<close> has it.
\<close>

definition findAtInclusive :: "noteDefinition list \<Rightarrow> ustring \<Rightarrow> nat \<Rightarrow> noteDefinition option" where
  "findAtInclusive notes lineText column =
     find (\<lambda>n. list_ex (\<lambda>i. i \<le> column \<and> column \<le> i + length (key n))
                        (occurrences (key n) lineText)) notes"

text \<open>A key without pattern syntax characters.\<close>

definition plainKey :: "ustring \<Rightarrow> bool" where
  "plainKey k \<longleftrightarrow> k \<noteq> [] \<and> list_all (\<lambda>c. \<not> isSyntaxChar c) k"


definition multiLineExampleColon :: ustring where
  "multiLineExampleColon =
     openB # ascii ''A'' @ closeB # colonF # ascii ''line1'' @ LF # ascii ''line2'' @ LF
       # openB # ascii ''B'' @ closeB # colonF # ascii ''line3''"

definition emptyValueExample :: ustring where
  "emptyValueExample = openB # ascii ''A'' @ closeB # LF # openB # ascii ''B'' @ closeB # ascii ''value''"

definition emptyValueExampleColon :: ustring where
  "emptyValueExampleColon =
     openB # ascii ''A'' @ closeB # colonF # LF # openB # ascii ''B'' @ closeB # colonF # ascii ''value''"

definition lineRange :: "nat \<Rightarrow> nat \<Rightarrow> vrange" where
  "lineRange n len = \<lparr>startLine = n, startChar = 0, endLine = n, endChar = len\<rparr>"

text \<open>
  The pattern that consists of the characters of \<open>k\<close>, each standing for itself.
\<close>

definition literalRegex :: "ustring \<Rightarrow> regex" where
  "literalRegex k = foldr (\<lambda>c r. Seq (Chr c) r) k Empty"

definition matchAt :: "ustring \<Rightarrow> nat \<Rightarrow> rmatch" where
  "matchAt k j = \<lparr>mIndex = j, mEnd = j + length k, mCaps = []\<rparr>"


section \<open>Scans that never end\<close>

text \<open>
  A call of \<open>exec\<close> that succeeds and leaves \<open>lastIndex\<close> where it was (an empty match
  at \<open>lastIndex\<close>) is repeated for ever: the collecting loop does not return, and the
  searching loop does not return either unless that match contains the position.
\<close>

lemma execAll_stuck:
  assumes "regexExec r text i = Some m" "mEnd m = i"
  shows "execAll r text i = None"
proof (rule ccontr)
  assume "execAll r text i \<noteq> None"
  then obtain ms where s: "execAll r text i = Some ms" by auto
  have "\<not> (r = r \<and> text = text \<and> i = i)"
  proof (rule execAll.raw_induct [where P = "\<lambda>r' t' i' ms. \<not> (r' = r \<and> t' = text \<and> i' = i)", OF _ s])
    fix f r' t' i' ms'
    assume IH: "\<And>a b c y. f a b c = Some y \<Longrightarrow> \<not> (a = r \<and> b = text \<and> c = i)"
      and step: "(case regexExec r' t' i' of None \<Rightarrow> Some []
          | Some m \<Rightarrow> Option.bind (f r' t' (mEnd m)) (\<lambda>ms. Some (m # ms))) = Some ms'"
    show "\<not> (r' = r \<and> t' = text \<and> i' = i)"
    proof
      assume "r' = r \<and> t' = text \<and> i' = i"
      with step assms obtain ms'' where "f r text i = Some ms''"
        by (auto simp: bind_eq_Some_conv)
      with IH show False by blast
    qed
  qed
  then show False by simp
qed

lemma findContaining_stuck:
  assumes "regexExec r text i = Some m" "mEnd m = i"
    "\<not> rangeContains (keyRange (fst p) (mIndex m) klen) p"
  shows "findContaining r text klen p i = None"
proof (rule ccontr)
  assume "findContaining r text klen p i \<noteq> None"
  then obtain y where s: "findContaining r text klen p i = Some y" by auto
  have "\<not> (r = r \<and> text = text \<and> klen = klen \<and> p = p \<and> i = i)"
  proof (rule findContaining.raw_induct
      [where P = "\<lambda>r' t' k' p' i' y. \<not> (r' = r \<and> t' = text \<and> k' = klen \<and> p' = p \<and> i' = i)", OF _ s])
    fix f r' t' k' p' i' y'
    assume IH: "\<And>a b c d e y. f a b c d e = Some y \<Longrightarrow>
          \<not> (a = r \<and> b = text \<and> c = klen \<and> d = p \<and> e = i)"
      and step: "(case regexExec r' t' i' of None \<Rightarrow> Some None
          | Some m \<Rightarrow> if rangeContains (keyRange (fst p') (mIndex m) k') p'
              then Some (Some (mIndex m)) else f r' t' k' p' (mEnd m)) = Some y'"
    show "\<not> (r' = r \<and> t' = text \<and> k' = klen \<and> p' = p \<and> i' = i)"
    proof
      assume "r' = r \<and> t' = text \<and> k' = klen \<and> p' = p \<and> i' = i"
      with step assms have "f r text klen p i = Some y'"
        by auto
      with IH show False by blast
    qed
  qed
  then show False by simp
qed


section \<open>The matcher on the note expressions\<close>

lemma upt_Suc_Suc_rev: "rev [0..<Suc (Suc m)] = map Suc (rev [0..<Suc m]) @ [0]"
proof -
  have "[0..<Suc (Suc m)] = 0 # map Suc [0..<Suc m]"
    by (simp add: upt_conv_Cons map_Suc_upt del: upt_Suc)
  then show ?thesis by (simp add: rev_map del: upt_Suc)
qed

lemma upt_Suc_Suc: "[0..<Suc (Suc m)] = 0 # map Suc [0..<Suc m]"
  by (simp add: upt_conv_Cons map_Suc_upt del: upt_Suc)

text \<open>A greedy star over a character class: the longest run first, then each shorter one.\<close>

lemma matches_greedy_class:
  "matches (Star True (Class neg items)) (s, caps) =
     map (\<lambda>n. (drop n s, caps)) (rev [0..<Suc (length (takeWhile (inClass neg items) s))])"
proof (induction s)
  case Nil
  then show ?case by simp
next
  case (Cons x xs)
  show ?case
  proof (cases "inClass neg items x")
    case True
    have "matches (Star True (Class neg items)) (x # xs, caps) =
            matches (Star True (Class neg items)) (xs, caps) @ [(x # xs, caps)]"
      using True by simp
    also have "\<dots> = map (\<lambda>n. (drop n xs, caps)) (rev [0..<Suc (length (takeWhile (inClass neg items) xs))])
                     @ [(x # xs, caps)]"
      by (simp only: Cons.IH)
    also have "\<dots> = map (\<lambda>n. (drop n (x # xs), caps))
                      (rev [0..<Suc (length (takeWhile (inClass neg items) (x # xs)))])"
      using True by (simp add: upt_Suc_Suc_rev comp_def del: upt_Suc)
    finally show ?thesis .
  next
    case False
    then show ?thesis by simp
  qed
qed

text \<open>A lazy star over a class that holds every character: the shortest run first.\<close>

lemma matches_lazy_all:
  assumes "\<And>c. inClass neg items c"
  shows "matches (Star False (Class neg items)) (s, caps) =
           map (\<lambda>n. (drop n s, caps)) [0..<Suc (length s)]"
proof (induction s)
  case Nil
  then show ?case by simp
next
  case (Cons x xs)
  have "matches (Star False (Class neg items)) (x # xs, caps) =
          (x # xs, caps) # matches (Star False (Class neg items)) (xs, caps)"
    using assms by simp
  also have "\<dots> = (x # xs, caps) # map (\<lambda>n. (drop n xs, caps)) [0..<Suc (length xs)]"
    by (simp only: Cons.IH)
  also have "\<dots> = map (\<lambda>n. (drop n (x # xs), caps)) [0..<Suc (length (x # xs))]"
    by (simp add: upt_Suc_Suc comp_def del: upt_Suc)
  finally show ?case .
qed

lemma inClass_any: "inClass False [CSpace, CNotSpace] c"
  by (simp add: inClass_def)

lemma inClass_notClose: "inClass True [CChar closeB] c \<longleftrightarrow> c \<noteq> closeB"
  by (auto simp: inClass_def)


lemma matches_lookahead:
  "matches (LookAhead (Alt (Seq (Chr LF) (Chr openB)) InputEnd)) (s, caps) =
     (if capturedValue s = [] then [(s, caps)] else [])"
proof (cases s)
  case Nil
  then show ?thesis by simp
next
  case (Cons c s')
  show ?thesis
  proof (cases s')
    case Nil
    with Cons show ?thesis by simp
  next
    case (Cons d t)
    with \<open>s = c # s'\<close> show ?thesis by simp
  qed
qed

lemma capturedValue_length: "length (capturedValue s) \<le> length s"
  by (induction s rule: capturedValue.induct) auto

lemma capturedValue_take: "take (length (capturedValue s)) s = capturedValue s"
  by (induction s rule: capturedValue.induct) auto


text \<open>
  The lazy value group followed by the lookahead: the first success is the shortest value
  after which the lookahead holds.
\<close>

lemma value_then_lookahead:
  "\<exists>rest. concat (map (\<lambda>n. matches (LookAhead (Alt (Seq (Chr LF) (Chr openB)) InputEnd))
                             (drop n s, (2, p @ take n s) # c)) [0..<Suc (length s)])
     = (drop (length (capturedValue s)) s, (2, p @ capturedValue s) # c) # rest"
proof (induction s arbitrary: p rule: capturedValue.induct)
  case 1
  show ?case by (simp add: matches_lookahead del: matches.simps)
next
  case (2 x)
  show ?case by (simp add: matches_lookahead del: matches.simps)
next
  case (3 x d s)
  let ?L = "LookAhead (Alt (Seq (Chr LF) (Chr openB)) InputEnd)"
  show ?case
  proof (cases "x = LF \<and> d = openB")
    case True
    then show ?thesis
      by (simp add: matches_lookahead upt_Suc_Suc del: matches.simps upt_Suc)
  next
    case False
    from 3 [OF False, of "p @ [x]"] obtain rest where
      IH: "concat (map (\<lambda>n. matches ?L (drop n (d # s), (2, (p @ [x]) @ take n (d # s)) # c))
                    [0..<Suc (length (d # s))])
           = (drop (length (capturedValue (d # s))) (d # s), (2, (p @ [x]) @ capturedValue (d # s)) # c) # rest"
      by blast
    have "concat (map (\<lambda>n. matches ?L (drop n (x # d # s), (2, p @ take n (x # d # s)) # c))
                    [0..<Suc (length (x # d # s))])
        = matches ?L (x # d # s, (2, p) # c)
          @ concat (map (\<lambda>n. matches ?L (drop n (d # s), (2, p @ x # take n (d # s)) # c))
                    [0..<Suc (length (d # s))])"
      by (simp add: upt_Suc_Suc [of "Suc (length s)"] comp_def del: matches.simps upt_Suc)
    also have "matches ?L (x # d # s, (2, p) # c) = []"
      using False by (simp add: matches_lookahead del: matches.simps)
    finally show ?thesis using IH False by (simp del: matches.simps upt_Suc)
  qed
qed

lemma matches_value_group:
  "matches (Group 2 (Star False (Class False [CSpace, CNotSpace]))) (s, c) =
     map (\<lambda>n. (drop n s, (2, take n s) # c)) [0..<Suc (length s)]"
proof -
  have "matches (Group 2 (Star False (Class False [CSpace, CNotSpace]))) (s, c) =
          map (\<lambda>n. (drop n s, (2, take (length s - length (drop n s)) s) # c)) [0..<Suc (length s)]"
    by (simp only: matches.simps(9) matches_lazy_all [OF inClass_any] map_map comp_def fst_conv snd_conv)
  also have "\<dots> = map (\<lambda>n. (drop n s, (2, take n s) # c)) [0..<Suc (length s)]"
    by (rule map_cong) auto
  finally show ?thesis .
qed

lemma matches_value_lookahead:
  "\<exists>rest. matches (Seq (Group 2 (Star False (Class False [CSpace, CNotSpace])))
                       (LookAhead (Alt (Seq (Chr LF) (Chr openB)) InputEnd))) (s, c)
     = (drop (length (capturedValue s)) s, (2, capturedValue s) # c) # rest"
proof -
  let ?L = "LookAhead (Alt (Seq (Chr LF) (Chr openB)) InputEnd)"
  have "matches (Seq (Group 2 (Star False (Class False [CSpace, CNotSpace]))) ?L) (s, c)
      = concat (map (\<lambda>n. matches ?L (drop n s, (2, [] @ take n s) # c)) [0..<Suc (length s)])"
    by (simp only: matches.simps(5) matches_value_group map_map comp_def append_Nil)
  then show ?thesis using value_then_lookahead [of s "[]" c] by simp
qed

lemma matches_Seq_Chr:
  "matches (Seq (Chr a) r) (s, c) =
     (case s of [] \<Rightarrow> [] | x # xs \<Rightarrow> if x = a then matches r (xs, c) else [])"
  by (cases s) simp_all

lemma matches_Seq_Empty: "matches (Seq Empty r) st = matches r st"
  by simp

text \<open>The key group: at least one character other than the closing bracket, longest first.\<close>

lemma matches_key_group:
  "matches (Group 1 (Plus True (Class True [CChar closeB]))) (s, c) =
     (case s of
        [] \<Rightarrow> []
      | x # xs \<Rightarrow>
          if x = closeB then []
          else map (\<lambda>n. (drop n xs, (1, x # take n xs) # c))
                   (rev [0..<Suc (length (takeWhile (\<lambda>y. y \<noteq> closeB) xs))]))"
proof (cases s)
  case Nil
  then show ?thesis by (simp add: Plus_def)
next
  case (Cons x xs)
  show ?thesis
  proof (cases "x = closeB")
    case True
    with Cons show ?thesis by (simp add: Plus_def inClass_notClose)
  next
    case False
    let ?C = "Class True [CChar closeB]"
    let ?m = "length (takeWhile (\<lambda>y. y \<noteq> closeB) xs)"
    have cls: "inClass True [CChar closeB] = (\<lambda>y. y \<noteq> closeB)"
      by (rule ext) (simp add: inClass_notClose)
    have "matches (Plus True ?C) (x # xs, c) = matches (Star True ?C) (xs, c)"
      using False by (simp add: Plus_def inClass_notClose del: matches.simps(7))
    also have "\<dots> = map (\<lambda>n. (drop n xs, c)) (rev [0..<Suc ?m])"
      by (simp only: matches_greedy_class cls)
    finally have plus: "matches (Plus True ?C) (x # xs, c) = map (\<lambda>n. (drop n xs, c)) (rev [0..<Suc ?m])" .
    have "matches (Group 1 (Plus True ?C)) (x # xs, c) =
            map (\<lambda>n. (drop n xs, (1, take (length (x # xs) - length (drop n xs)) (x # xs)) # c))
                (rev [0..<Suc ?m])"
      by (simp only: matches.simps(9) plus map_map comp_def fst_conv snd_conv)
    also have "\<dots> = map (\<lambda>n. (drop n xs, (1, x # take n xs) # c)) (rev [0..<Suc ?m])"
    proof (rule map_cong [OF refl])
      fix n assume "n \<in> set (rev [0..<Suc ?m])"
      then have "n \<le> ?m" by auto
      moreover have "?m \<le> length xs" by (rule length_takeWhile_le)
      ultimately have "length (x # xs) - length (drop n xs) = Suc n" by simp
      then show "(drop n xs, (1, take (length (x # xs) - length (drop n xs)) (x # xs)) # c)
               = (drop n xs, (1, x # take n xs) # c)"
        by simp
    qed
    finally show ?thesis using Cons False by simp
  qed
qed

lemma close_fails_inside_key:
  assumes "n < length (takeWhile (\<lambda>y. y \<noteq> closeB) xs)"
  shows "matches (Seq (Chr closeB) r) (drop n xs, c) = []"
proof -
  let ?k = "takeWhile (\<lambda>y. y \<noteq> closeB) xs"
  have len: "n < length xs"
    using assms length_takeWhile_le [of "\<lambda>y. y \<noteq> closeB" xs] by linarith
  have "xs ! n = ?k ! n" using assms by (simp add: takeWhile_nth)
  moreover have "?k ! n \<in> set ?k" using assms by simp
  ultimately have "xs ! n \<noteq> closeB" by (auto dest: set_takeWhileD)
  moreover have "drop n xs = xs ! n # drop (Suc n) xs"
    using len by (simp add: Cons_nth_drop_Suc)
  ultimately show ?thesis by (simp add: matches_Seq_Chr)
qed

lemma key_then_close:
  "matches (Seq (Group 1 (Plus True (Class True [CChar closeB]))) (Seq (Chr closeB) r)) (s, c) =
     (if takeWhile (\<lambda>y. y \<noteq> closeB) s = [] \<or> dropWhile (\<lambda>y. y \<noteq> closeB) s = [] then []
      else matches r (tl (dropWhile (\<lambda>y. y \<noteq> closeB) s), (1, takeWhile (\<lambda>y. y \<noteq> closeB) s) # c))"
proof (cases s)
  case Nil
  have "matches (Seq (Group 1 (Plus True (Class True [CChar closeB]))) (Seq (Chr closeB) r)) ([], c) = []"
    by (simp only: matches.simps(5) matches_key_group list.case list.map concat.simps)
  with Nil show ?thesis by simp
next
  case (Cons x xs)
  let ?P = "\<lambda>y. y \<noteq> closeB"
  let ?T = "Seq (Chr closeB) r"
  let ?m = "length (takeWhile ?P xs)"
  show ?thesis
  proof (cases "x = closeB")
    case True
    have "matches (Seq (Group 1 (Plus True (Class True [CChar closeB]))) ?T) (closeB # xs, c) = []"
      by (simp only: matches.simps(5) matches_key_group list.case if_True list.map concat.simps simp_thms)
    with Cons True show ?thesis by simp
  next
    case False
    have "matches (Seq (Group 1 (Plus True (Class True [CChar closeB]))) ?T) (x # xs, c)
        = concat (map (\<lambda>n. matches ?T (drop n xs, (1, x # take n xs) # c)) (rev [0..<Suc ?m]))"
      using False by (simp only: matches.simps(5) matches_key_group list.case if_False map_map comp_def)
    also have "\<dots> = matches ?T (drop ?m xs, (1, x # take ?m xs) # c)
                    @ concat (map (\<lambda>n. matches ?T (drop n xs, (1, x # take n xs) # c)) (rev [0..<?m]))"
      by (simp only: upt_Suc rev_append rev.simps list.map concat.simps append_Nil append_Cons if_True le0)
    also have "concat (map (\<lambda>n. matches ?T (drop n xs, (1, x # take n xs) # c)) (rev [0..<?m])) = []"
      using close_fails_inside_key [of _ xs r] by (simp del: matches.simps)
    also have "drop ?m xs = dropWhile ?P xs" by (rule dropWhile_eq_drop [symmetric])
    also have "take ?m xs = takeWhile ?P xs" by (rule takeWhile_eq_take [symmetric])
    finally have eq: "matches (Seq (Group 1 (Plus True (Class True [CChar closeB]))) ?T) (x # xs, c)
        = matches ?T (dropWhile ?P xs, (1, x # takeWhile ?P xs) # c)"
      by simp
    show ?thesis
    proof (cases "dropWhile ?P xs")
      case Nil
      with eq Cons False show ?thesis by (simp add: matches_Seq_Chr del: matches.simps)
    next
      case (Cons y r')
      then have "y = closeB" using hd_dropWhile [of ?P xs] by auto
      with eq Cons \<open>s = x # xs\<close> False show ?thesis by (simp add: matches_Seq_Chr del: matches.simps)
    qed
  qed
qed

text \<open>
  The note expression at one start position: it matches exactly where a key marker
  starts, and what remains is the value group followed by the lookahead.
\<close>

lemma markerAt_Cons:
  "markerAt v (openB # s1) =
     (if takeWhile (\<lambda>y. y \<noteq> closeB) s1 = [] \<or> dropWhile (\<lambda>y. y \<noteq> closeB) s1 = [] then None
      else (case v of
              Tolerant \<Rightarrow> Some (takeWhile (\<lambda>y. y \<noteq> closeB) s1, tl (dropWhile (\<lambda>y. y \<noteq> closeB) s1))
            | Strict \<Rightarrow>
                (case tl (dropWhile (\<lambda>y. y \<noteq> closeB) s1) of
                   [] \<Rightarrow> None
                 | d # r' \<Rightarrow> if d = colonF then Some (takeWhile (\<lambda>y. y \<noteq> closeB) s1, r') else None)))"
  by (simp only: markerAt_def list.case Let_def simp_thms if_False)

lemma matches_noteRegex_Cons:
  "matches (noteRegex v) (openB # s1, []) =
     (if takeWhile (\<lambda>y. y \<noteq> closeB) s1 = [] \<or> dropWhile (\<lambda>y. y \<noteq> closeB) s1 = [] then []
      else matches (Seq (case v of Strict \<Rightarrow> Chr colonF | Tolerant \<Rightarrow> Empty)
                        (Seq (Group 2 (Star False (Class False [CSpace, CNotSpace])))
                             (LookAhead (Alt (Seq (Chr LF) (Chr openB)) InputEnd))))
             (tl (dropWhile (\<lambda>y. y \<noteq> closeB) s1), [(1, takeWhile (\<lambda>y. y \<noteq> closeB) s1)]))"
  unfolding noteRegex_def
  by (simp only: matches_Seq_Chr [of openB] list.case if_True key_then_close simp_thms)

lemma matches_noteRegex:
  "matches (noteRegex v) (s, []) =
     (case markerAt v s of
        None \<Rightarrow> []
      | Some (k, rest) \<Rightarrow>
          matches (Seq (Group 2 (Star False (Class False [CSpace, CNotSpace])))
                       (LookAhead (Alt (Seq (Chr LF) (Chr openB)) InputEnd))) (rest, [(1, k)]))"
proof (cases s)
  case Nil
  have "matches (noteRegex v) ([], []) = []"
    unfolding noteRegex_def by (simp only: matches_Seq_Chr list.case)
  moreover have "markerAt v [] = None"
    by (simp only: markerAt_def list.case)
  ultimately show ?thesis using Nil by (simp only: option.case)
next
  case (Cons c s1)
  let ?P = "\<lambda>y. y \<noteq> closeB"
  let ?VL = "Seq (Group 2 (Star False (Class False [CSpace, CNotSpace])))
                 (LookAhead (Alt (Seq (Chr LF) (Chr openB)) InputEnd))"
  show ?thesis
  proof (cases "c = openB")
    case False
    have "matches (noteRegex v) (c # s1, []) = []"
      unfolding noteRegex_def using False by (simp only: matches_Seq_Chr list.case if_False)
    moreover have "markerAt v (c # s1) = None"
      using False by (simp only: markerAt_def list.case simp_thms if_True)
    ultimately show ?thesis using Cons by (simp only: option.case)
  next
    case True
    note m = matches_noteRegex_Cons [of v s1] and sp = markerAt_Cons [of v s1]
    show ?thesis
    proof (cases "takeWhile ?P s1 = [] \<or> dropWhile ?P s1 = []")
      case A: True
      have "matches (noteRegex v) (openB # s1, []) = []"
        using m A by (simp only: if_True)
      moreover have "markerAt v (openB # s1) = None"
        using sp A by (simp only: if_True)
      ultimately show ?thesis using Cons True by (simp only: option.case)
    next
      case B: False
      show ?thesis
      proof (cases v)
        case Tolerant
        have "matches (noteRegex v) (openB # s1, []) =
                matches ?VL (tl (dropWhile ?P s1), [(1, takeWhile ?P s1)])"
          using m B unfolding Tolerant by (simp only: if_False variant.case matches_Seq_Empty)
        moreover have "markerAt v (openB # s1) = Some (takeWhile ?P s1, tl (dropWhile ?P s1))"
          using sp B unfolding Tolerant by (simp only: if_False variant.case)
        ultimately show ?thesis using Cons True by (simp only: option.case prod.case)
      next
        case Strict
        have m': "matches (noteRegex v) (openB # s1, []) =
                (case tl (dropWhile ?P s1) of
                   [] \<Rightarrow> []
                 | d # r' \<Rightarrow> if d = colonF then matches ?VL (r', [(1, takeWhile ?P s1)]) else [])"
          using m B unfolding Strict by (simp only: if_False variant.case matches_Seq_Chr)
        have sp': "markerAt v (openB # s1) =
                (case tl (dropWhile ?P s1) of
                   [] \<Rightarrow> None
                 | d # r' \<Rightarrow> if d = colonF then Some (takeWhile ?P s1, r') else None)"
          using sp B unfolding Strict by (simp only: if_False variant.case)
        show ?thesis
        proof (cases "tl (dropWhile ?P s1)")
          case Nil
          with m' sp' Cons True show ?thesis by (simp only: list.case option.case)
        next
          case (Cons d r')
          with m' sp' \<open>s = c # s1\<close> True show ?thesis
            by (cases "d = colonF") (simp_all only: list.case option.case prod.case if_True if_False simp_thms)
        qed
      qed
    qed
  qed
qed

lemma matches_noteRegex_None: "markerAt v s = None \<Longrightarrow> matches (noteRegex v) (s, []) = []"
  by (simp add: matches_noteRegex)

lemma matches_noteRegex_Some:
  assumes "markerAt v s = Some (k, rest)"
  shows "\<exists>more. matches (noteRegex v) (s, []) =
           (drop (length (capturedValue rest)) rest, [(2, capturedValue rest), (1, k)]) # more"
  using assms matches_value_lookahead [of rest "[(1, k)]"] by (simp add: matches_noteRegex)


section \<open>The loop over the matches of a note source\<close>

lemma markerAt_shape:
  assumes "markerAt v s = Some (k, rest)"
  shows "s = openB # k @ closeB # (case v of Strict \<Rightarrow> [colonF] | Tolerant \<Rightarrow> []) @ rest"
proof -
  let ?P = "\<lambda>y. y \<noteq> closeB"
  from assms obtain s1 where s: "s = openB # s1"
    by (cases s) (auto simp: markerAt_def split: if_splits)
  from assms s have nz: "dropWhile ?P s1 \<noteq> []" and k: "k = takeWhile ?P s1"
    by (auto simp: markerAt_Cons split: if_splits variant.splits list.splits)
  from nz have "hd (dropWhile ?P s1) = closeB"
    using hd_dropWhile [of ?P s1] by auto
  with nz have d: "dropWhile ?P s1 = closeB # tl (dropWhile ?P s1)"
    by (cases "dropWhile ?P s1") auto
  have "tl (dropWhile ?P s1) = (case v of Strict \<Rightarrow> [colonF] | Tolerant \<Rightarrow> []) @ rest"
    using assms s by (auto simp: markerAt_Cons split: if_splits variant.splits list.splits)
  with d have "dropWhile ?P s1 = closeB # (case v of Strict \<Rightarrow> [colonF] | Tolerant \<Rightarrow> []) @ rest"
    by simp
  moreover have "s1 = takeWhile ?P s1 @ dropWhile ?P s1" by simp
  ultimately show ?thesis using s k by simp
qed

lemma markerAt_lengths:
  assumes "markerAt v s = Some (k, rest)"
  shows "length s = length k + (case v of Strict \<Rightarrow> 3 | Tolerant \<Rightarrow> 2) + length rest"
    and "rest = drop (length k + (case v of Strict \<Rightarrow> 3 | Tolerant \<Rightarrow> 2)) s"
proof -
  let ?sep = "case v of Strict \<Rightarrow> [colonF] | Tolerant \<Rightarrow> []"
  have s: "s = (openB # k @ closeB # ?sep) @ rest"
    using markerAt_shape [OF assms] by simp
  have l: "length (openB # k @ closeB # ?sep) = length k + (case v of Strict \<Rightarrow> 3 | Tolerant \<Rightarrow> 2)"
    by (cases v) simp_all
  show "length s = length k + (case v of Strict \<Rightarrow> 3 | Tolerant \<Rightarrow> 2) + length rest"
    by (subst s) (simp only: length_append l)
  show "rest = drop (length k + (case v of Strict \<Rightarrow> 3 | Tolerant \<Rightarrow> 2)) s"
    by (subst s) (simp only: l [symmetric] append_eq_conv_conj drop_append length_drop, simp)
qed

lemma scanFrom_Nil: "scanFrom (noteRegex v) [] i = None"
  by (simp add: matches_noteRegex markerAt_def del: matches.simps)

lemma scanFrom_skip:
  assumes "markerAt v (c # s') = None"
  shows "scanFrom (noteRegex v) (c # s') i = scanFrom (noteRegex v) s' (Suc i)"
  by (subst scanFrom.simps) (simp add: matches_noteRegex_None [OF assms] del: scanFrom.simps)

lemma scanFrom_marker:
  assumes "markerAt v s = Some (k, rest)"
  shows "scanFrom (noteRegex v) s i = Some (matchOf v (i, k, capturedValue rest))"
proof -
  let ?n = "length (capturedValue rest)"
  from matches_noteRegex_Some [OF assms] obtain more where
    m: "matches (noteRegex v) (s, []) = (drop ?n rest, [(2, capturedValue rest), (1, k)]) # more"
    by blast
  have "?n \<le> length rest" by (rule capturedValue_length)
  then have "length s - length (drop ?n rest)
           = length k + (case v of Strict \<Rightarrow> 3 | Tolerant \<Rightarrow> 2) + ?n"
    using markerAt_lengths(1) [OF assms] by simp
  then show ?thesis
    by (subst scanFrom.simps) (simp add: m matchOf_def del: scanFrom.simps)
qed

lemma execAll_noteRegex:
  "i \<le> length text \<Longrightarrow> s = drop i text \<Longrightarrow>
     execAll (noteRegex v) text i = Some (map (matchOf v) (markerScan v s i))"
proof (induction v s i rule: markerScan.induct)
  case (1 v s i)
  have exec: "regexExec (noteRegex v) text i = scanFrom (noteRegex v) s i"
    using "1.prems" by (simp add: regexExec_def del: scanFrom.simps)
  show ?case
  proof (cases s)
    case Nil
    then show ?thesis
      by (subst execAll.simps, subst markerScan.simps) (simp add: exec scanFrom_Nil del: scanFrom.simps)
  next
    case (Cons c s')
    have i: "i < length text" using "1.prems" Cons by (cases "i < length text") auto
    have s': "s' = drop (Suc i) text"
      using "1.prems" Cons by (metis drop_Suc drop_drop list.sel(3) plus_1_eq_Suc tl_drop)
    show ?thesis
    proof (cases "markerAt v s")
      case None
      have IH: "execAll (noteRegex v) text (Suc i) = Some (map (matchOf v) (markerScan v s' (Suc i)))"
        using "1.IH"(1) [OF Cons None] i s' by simp
      have "regexExec (noteRegex v) text i = regexExec (noteRegex v) text (Suc i)"
        using exec None Cons i s' scanFrom_skip [of v c s' i]
        by (simp add: regexExec_def del: scanFrom.simps)
      then have "execAll (noteRegex v) text i = execAll (noteRegex v) text (Suc i)"
        by (subst execAll.simps, subst (2) execAll.simps) simp
      moreover have "markerScan v s i = markerScan v s' (Suc i)"
        using Cons None by (subst markerScan.simps) simp
      ultimately show ?thesis using IH by simp
    next
      case (Some x)
      obtain k rest where x: "x = (k, rest)" by (cases x)
      let ?n = "length (capturedValue rest)"
      let ?e = "i + (length s - length rest) + ?n"
      note sp = Some [unfolded x]
      have len: "length s = length k + (case v of Strict \<Rightarrow> 3 | Tolerant \<Rightarrow> 2) + length rest"
        by (rule markerAt_lengths(1) [OF sp])
      have rest: "rest = drop (length k + (case v of Strict \<Rightarrow> 3 | Tolerant \<Rightarrow> 2)) s"
        by (rule markerAt_lengths(2) [OF sp])
      have n: "?n \<le> length rest" by (rule capturedValue_length)
      have e: "?e = mEnd (matchOf v (i, k, capturedValue rest))"
        using len by (simp add: matchOf_def)
      have slen: "length s = length text - i" using "1.prems" by simp
      have "?e \<le> length text" using len n slen "1.prems" by simp
      moreover have "drop ?n rest = drop ?e text"
      proof -
        have "drop ?n rest = drop (?n + (length s - length rest)) s"
          using rest len by (metis add_diff_cancel_right' drop_drop)
        also have "\<dots> = drop ?e text"
          using "1.prems" by (simp add: add.commute add.left_commute)
        finally show ?thesis .
      qed
      ultimately have IH: "execAll (noteRegex v) text ?e
          = Some (map (matchOf v) (markerScan v (drop ?n rest) ?e))"
        using "1.IH"(2) [OF Cons Some x [symmetric]] by simp
      have "regexExec (noteRegex v) text i = Some (matchOf v (i, k, capturedValue rest))"
        using exec scanFrom_marker [OF sp] by simp
      then have "execAll (noteRegex v) text i
          = Some (matchOf v (i, k, capturedValue rest) # map (matchOf v) (markerScan v (drop ?n rest) ?e))"
        using IH e by (subst execAll.simps) simp
      moreover have "markerScan v s i = (i, k, capturedValue rest) # markerScan v (drop ?n rest) ?e"
        using Cons Some x by (subst markerScan.simps) simp
      ultimately show ?thesis by simp
    qed
  qed
qed


section \<open>Lines and notes\<close>

lemma splitLines_nonempty: "splitLines s \<noteq> []"
  by (induction s rule: splitLines.induct) (auto split: list.splits)

lemma positionIn_line:
  "ls \<noteq> [] \<Longrightarrow> fst (positionIn ls n off) < n + length ls"
  by (induction ls n off rule: positionIn.induct) auto

lemma positionAt_line: "fst (positionAt text off) < length (splitLines text)"
  using positionIn_line [OF splitLines_nonempty, of "text" 0 off] by (simp add: positionAt_def)

lemma lineAt_positionAt:
  "lineAt text (fst (positionAt text off)) =
     Inr (fst (splitLines text ! fst (positionAt text off)), lineRangeAt text off)"
  using positionAt_line [of "text" off] by (simp add: lineAt_def lineRangeAt_def Let_def)

lemma noteOfMatch_matchOf: "noteOfMatch u text (matchOf v c) = Inr (entryOf u text c)"
  by (simp add: noteOfMatch_def capture_def matchOf_def lineAt_positionAt entryOf_def)

lemma notesOfMatches_matchOf:
  "notesOfMatches u text (map (matchOf v) cs) = Inr (concat (map (entryOf u text) cs))"
  by (induction cs) (simp_all add: noteOfMatch_matchOf)

lemma parseDocument_scannedNotes: "parseDocument v u text = Some (Inr (scannedNotes v u text))"
  using execAll_noteRegex [of 0 "text" "text" v]
  by (simp add: parseDocument_def scannedNotes_def notesOfMatches_matchOf)

lemma notesOfSource_readable: "notesOfSource v (u, Some text) = scannedNotes v u text"
  by (simp add: notesOfSource_def parseDocument_scannedNotes)

lemma parseDocument_notesOfSource:
  "parseDocument v u text = Some (Inr (notesOfSource v (u, Some text)))"
  by (simp add: notesOfSource_readable parseDocument_scannedNotes)

lemma parseNoteFiles_result:
  "parseNoteFiles v ws =
     (case find (\<lambda>f. snd f = None) ws of
        Some f \<Rightarrow> Some (Inl (ReadFailure (fst f)))
      | None \<Rightarrow> Some (Inr (concat (map (notesOfSource v) ws))))"
proof (induction ws)
  case Nil
  then show ?case by simp
next
  case (Cons f ws)
  obtain u c where f: "f = (u, c)" by (cases f)
  show ?case
  proof (cases c)
    case None
    with f show ?thesis by simp
  next
    case (Some t)
    with f Cons show ?thesis
      by (simp add: parseDocument_notesOfSource split: option.splits)
  qed
qed

lemma parseNoteFiles_returns: "\<exists>r. parseNoteFiles v ws = Some r"
  by (simp add: parseNoteFiles_result split: option.splits)

section \<open>Trimming\<close>

lemma dropWhile_last:
  "dropWhile P xs \<noteq> [] \<Longrightarrow> last (dropWhile P xs) = last xs"
  by (induction xs) (auto split: if_splits)

lemma trim_ends:
  assumes "trim s \<noteq> []"
  shows "\<not> isSpace (hd (trim s))" and "\<not> isSpace (last (trim s))"
proof -
  let ?a = "dropWhile isSpace s"
  let ?b = "dropWhile isSpace (rev ?a)"
  have b: "?b \<noteq> []" using assms by (simp add: trim_def)
  have a: "?a \<noteq> []"
  proof
    assume "?a = []"
    then have "?b = []" by (simp only: rev.simps dropWhile.simps)
    with b show False ..
  qed
  have "hd (trim s) = last ?b" using b by (simp add: trim_def hd_rev)
  also have "\<dots> = last (rev ?a)" using b by (rule dropWhile_last)
  also have "\<dots> = hd ?a" using a by (simp add: last_rev)
  finally show "\<not> isSpace (hd (trim s))" using a hd_dropWhile [of isSpace s] by simp
  have "last (trim s) = hd ?b" using b by (simp add: trim_def last_rev)
  then show "\<not> isSpace (last (trim s))" using b hd_dropWhile [of isSpace "rev ?a"] by simp
qed

lemma trim_trim: "trim (trim s) = trim s"
proof (cases "trim s = []")
  case True
  have "trim [] = []" by (simp add: trim_def)
  with True show ?thesis by simp
next
  case False
  let ?t = "trim s"
  have h: "\<not> isSpace (hd ?t)" and l: "\<not> isSpace (last ?t)"
    using trim_ends [OF False] by auto
  have "dropWhile isSpace ?t = ?t"
    using False h by (cases ?t) auto
  moreover have "dropWhile isSpace (rev ?t) = rev ?t"
    using False l by (cases "rev ?t") (auto simp: hd_rev [symmetric])
  ultimately show ?thesis by (simp add: trim_def)
qed

lemma entryOf_wellformed:
  "n \<in> set (entryOf u text c) \<Longrightarrow>
     key n \<noteq> [] \<and> value' n \<noteq> [] \<and> trim (key n) = key n \<and> trim (value' n) = value' n"
  by (auto simp: entryOf_def trim_trim split: if_splits)

lemma notesOfSource_wellformed:
  "n \<in> set (notesOfSource v f) \<Longrightarrow>
     key n \<noteq> [] \<and> value' n \<noteq> [] \<and> trim (key n) = key n \<and> trim (value' n) = value' n"
proof (cases f)
  case (Pair u c)
  assume n: "n \<in> set (notesOfSource v f)"
  show ?thesis
  proof (cases c)
    case None
    with n Pair show ?thesis by (simp add: notesOfSource_def)
  next
    case (Some t)
    with n Pair obtain c' where "n \<in> set (entryOf u t c')"
      by (auto simp: notesOfSource_readable scannedNotes_def)
    then show ?thesis by (rule entryOf_wellformed)
  qed
qed


section \<open>Sources without a closing bracket\<close>

lemma markerAt_no_close: "closeB \<notin> set s \<Longrightarrow> markerAt v s = None"
proof (cases s)
  case Nil
  then show ?thesis by (simp add: markerAt_def)
next
  case (Cons c s1)
  assume "closeB \<notin> set s"
  with Cons have "dropWhile (\<lambda>y. y \<noteq> closeB) s1 = []" by auto
  with Cons show ?thesis by (simp add: markerAt_def)
qed

lemma markerScan_no_close: "closeB \<notin> set s \<Longrightarrow> markerScan v s i = []"
proof (induction s arbitrary: i)
  case Nil
  show ?case by (subst markerScan.simps) simp
next
  case (Cons c s)
  then show ?case
    by (subst markerScan.simps) (simp add: markerAt_no_close)
qed

lemma notesOfSource_no_close:
  assumes "\<And>t. snd f = Some t \<Longrightarrow> closeB \<notin> set t"
  shows "notesOfSource v f = []"
proof (cases f)
  case (Pair u c)
  show ?thesis
  proof (cases c)
    case None
    with Pair show ?thesis by (simp add: notesOfSource_def)
  next
    case (Some t)
    with Pair assms have "closeB \<notin> set t" by simp
    with Pair Some show ?thesis
      by (simp add: notesOfSource_readable scannedNotes_def markerScan_no_close)
  qed
qed


section \<open>Keys without pattern syntax\<close>

lemma isQuantChar_syntax: "isQuantChar c \<Longrightarrow> isSyntaxChar c"
  by (auto simp: isQuantChar_def isSyntaxChar_def)

lemma parseAtom_plain: "\<not> isSyntaxChar c \<Longrightarrow> parseAtom c s = Inr (Chr c, True, s)"
  by (auto simp: parseAtom_def isSyntaxChar_def isQuantChar_def)

lemma parseQuantifier_plain:
  "list_all (\<lambda>c. \<not> isSyntaxChar c) s \<Longrightarrow> parseQuantifier a s = (a, s)"
  by (induction a s rule: parseQuantifier.induct) (auto dest: isQuantChar_syntax)

lemma parseTerms_plain:
  "list_all (\<lambda>c. \<not> isSyntaxChar c) k \<Longrightarrow> parseTerms k = Inr (literalRegex k)"
proof (induction k)
  case Nil
  show ?case by (simp add: literalRegex_def)
next
  case (Cons c k)
  then have c: "\<not> isSyntaxChar c" and k: "list_all (\<lambda>c. \<not> isSyntaxChar c) k" by simp_all
  show ?case
    using Cons.IH [OF k]
    by (simp add: parseAtom_plain [OF c] parseQuantifier_plain [OF k] literalRegex_def)
qed

lemma newRegExp_plain: "plainKey k \<Longrightarrow> newRegExp k = Inr (literalRegex k)"
  by (simp add: newRegExp_def plainKey_def parseTerms_plain)

lemma matches_literal:
  "matches (literalRegex k) (s, c) = (if take (length k) s = k then [(drop (length k) s, c)] else [])"
proof (induction k arbitrary: s)
  case Nil
  show ?case by (simp add: literalRegex_def)
next
  case (Cons x k)
  have "literalRegex (x # k) = Seq (Chr x) (literalRegex k)" by (simp add: literalRegex_def)
  then show ?case
    by (cases s) (simp_all add: matches_Seq_Chr Cons.IH del: matches.simps)
qed

lemma scanFrom_literal_Nil: "k \<noteq> [] \<Longrightarrow> scanFrom (literalRegex k) [] i = None"
  by (simp add: matches_literal del: matches.simps)

lemma take_eq_imp_le:
  assumes "take (length k) s = k"
  shows "length k \<le> length s"
proof -
  have "length (take (length k) s) = length k" by (simp only: assms)
  then show ?thesis by simp
qed

lemma scanFrom_literal_here:
  assumes "s \<noteq> []" "take (length k) s = k"
  shows "scanFrom (literalRegex k) s i = Some (matchAt k i)"
proof -
  have "length k \<le> length s" using assms(2) by (rule take_eq_imp_le)
  then show ?thesis using assms
    by (subst scanFrom.simps) (simp add: matches_literal matchAt_def del: matches.simps scanFrom.simps)
qed

lemma scanFrom_literal_skip:
  "take (length k) (x # s) \<noteq> k \<Longrightarrow>
     scanFrom (literalRegex k) (x # s) i = scanFrom (literalRegex k) s (Suc i)"
  by (subst scanFrom.simps) (simp add: matches_literal del: matches.simps scanFrom.simps)

text \<open>
  For a plain key the collecting loop ends, and its matches are the occurrences of the
  key.
\<close>

lemma execAll_literal:
  "k \<noteq> [] \<Longrightarrow> i \<le> length t \<Longrightarrow> s = drop i t \<Longrightarrow>
     execAll (literalRegex k) t i = Some (map (matchAt k) (occurrencesFrom k s i))"
proof (induction k s i rule: occurrencesFrom.induct)
  case (1 k s i)
  have exec: "regexExec (literalRegex k) t i = scanFrom (literalRegex k) s i"
    using "1.prems" by (simp add: regexExec_def del: scanFrom.simps)
  show ?case
  proof (cases s)
    case Nil
    then show ?thesis using "1.prems"(1)
      by (subst execAll.simps, subst occurrencesFrom.simps)
         (simp add: exec scanFrom_literal_Nil del: scanFrom.simps)
  next
    case (Cons c s')
    have i: "i < length t" using "1.prems" Cons by (cases "i < length t") auto
    have s': "s' = drop (Suc i) t" using "1.prems" Cons i by (metis Cons_nth_drop_Suc list.inject)
    have nz: "\<not> (k = [] \<or> s = [])" using "1.prems"(1) Cons by simp
    show ?thesis
    proof (cases "take (length k) s = k")
      case True
      have e: "i + length k \<le> length t"
      proof -
        have "length k \<le> length s" using True by (rule take_eq_imp_le)
        then show ?thesis using "1.prems" by simp
      qed
      have d: "drop (length k) s = drop (i + length k) t"
        using "1.prems" by (simp add: add.commute)
      have IH: "execAll (literalRegex k) t (i + length k)
                  = Some (map (matchAt k) (occurrencesFrom k (drop (length k) s) (i + length k)))"
        using "1.IH"(1) [OF nz True "1.prems"(1) e d] .
      have "regexExec (literalRegex k) t i = Some (matchAt k i)"
        using exec scanFrom_literal_here [OF _ True, of i] Cons by simp
      then have "execAll (literalRegex k) t i
                  = Some (matchAt k i # map (matchAt k) (occurrencesFrom k (drop (length k) s) (i + length k)))"
        using IH by (subst execAll.simps) (simp add: matchAt_def)
      moreover have "occurrencesFrom k s i = i # occurrencesFrom k (drop (length k) s) (i + length k)"
        using nz True by (subst occurrencesFrom.simps) simp
      ultimately show ?thesis by simp
    next
      case False
      have IH: "execAll (literalRegex k) t (Suc i) = Some (map (matchAt k) (occurrencesFrom k (tl s) (Suc i)))"
        using "1.IH"(2) [OF nz False "1.prems"(1)] i s' Cons by simp
      have "regexExec (literalRegex k) t i = regexExec (literalRegex k) t (Suc i)"
        using exec False Cons i s' scanFrom_literal_skip [of k c s' i]
        by (simp add: regexExec_def del: scanFrom.simps)
      then have "execAll (literalRegex k) t i = execAll (literalRegex k) t (Suc i)"
        by (subst execAll.simps, subst (2) execAll.simps) simp
      moreover have "occurrencesFrom k s i = occurrencesFrom k (tl s) (Suc i)"
        using nz False by (subst occurrencesFrom.simps) simp
      ultimately show ?thesis using IH by simp
    qed
  qed
qed

text \<open>
  For a plain key the searching loop ends: it finds the first occurrence whose range
  contains the position, if there is one.
\<close>

lemma findContaining_literal:
  "k \<noteq> [] \<Longrightarrow> i \<le> length t \<Longrightarrow> s = drop i t \<Longrightarrow>
     findContaining (literalRegex k) t n p i
       = Some (find (\<lambda>j. rangeContains (keyRange (fst p) j n) p) (occurrencesFrom k s i))"
proof (induction k s i rule: occurrencesFrom.induct)
  case (1 k s i)
  have exec: "regexExec (literalRegex k) t i = scanFrom (literalRegex k) s i"
    using "1.prems" by (simp add: regexExec_def del: scanFrom.simps)
  show ?case
  proof (cases s)
    case Nil
    then show ?thesis using "1.prems"(1)
      by (subst findContaining.simps, subst occurrencesFrom.simps)
         (simp add: exec scanFrom_literal_Nil del: scanFrom.simps)
  next
    case (Cons c s')
    have i: "i < length t" using "1.prems" Cons by (cases "i < length t") auto
    have s': "s' = drop (Suc i) t" using "1.prems" Cons i by (metis Cons_nth_drop_Suc list.inject)
    have nz: "\<not> (k = [] \<or> s = [])" using "1.prems"(1) Cons by simp
    show ?thesis
    proof (cases "take (length k) s = k")
      case True
      have e: "i + length k \<le> length t"
      proof -
        have "length k \<le> length s" using True by (rule take_eq_imp_le)
        then show ?thesis using "1.prems" by simp
      qed
      have d: "drop (length k) s = drop (i + length k) t"
        using "1.prems" by (simp add: add.commute)
      have IH: "findContaining (literalRegex k) t n p (i + length k)
                  = Some (find (\<lambda>j. rangeContains (keyRange (fst p) j n) p)
                            (occurrencesFrom k (drop (length k) s) (i + length k)))"
        using "1.IH"(1) [OF nz True "1.prems"(1) e d] .
      have "regexExec (literalRegex k) t i = Some (matchAt k i)"
        using exec scanFrom_literal_here [OF _ True, of i] Cons by simp
      then have "findContaining (literalRegex k) t n p i
                  = (if rangeContains (keyRange (fst p) i n) p then Some (Some i)
                     else Some (find (\<lambda>j. rangeContains (keyRange (fst p) j n) p)
                            (occurrencesFrom k (drop (length k) s) (i + length k))))"
        using IH by (subst findContaining.simps) (simp add: matchAt_def)
      moreover have "occurrencesFrom k s i = i # occurrencesFrom k (drop (length k) s) (i + length k)"
        using nz True by (subst occurrencesFrom.simps) simp
      ultimately show ?thesis by simp
    next
      case False
      have IH: "findContaining (literalRegex k) t n p (Suc i)
                  = Some (find (\<lambda>j. rangeContains (keyRange (fst p) j n) p) (occurrencesFrom k (tl s) (Suc i)))"
        using "1.IH"(2) [OF nz False "1.prems"(1)] i s' Cons by simp
      have "regexExec (literalRegex k) t i = regexExec (literalRegex k) t (Suc i)"
        using exec False Cons i s' scanFrom_literal_skip [of k c s' i]
        by (simp add: regexExec_def del: scanFrom.simps)
      then have "findContaining (literalRegex k) t n p i = findContaining (literalRegex k) t n p (Suc i)"
        by (subst findContaining.simps, subst (2) findContaining.simps) simp
      moreover have "occurrencesFrom k s i = occurrencesFrom k (tl s) (Suc i)"
        using nz False by (subst occurrencesFrom.simps) simp
      ultimately show ?thesis using IH by simp
    qed
  qed
qed

lemma rangeContains_keyRange:
  "rangeContains (keyRange l j n) (l, col) \<longleftrightarrow> j \<le> col \<and> col \<le> j + n"
  by (auto simp: rangeContains_def keyRange_def)

lemma find_None_list_ex: "find P xs = None \<longleftrightarrow> \<not> list_ex P xs"
  by (auto simp: find_None_iff list_ex_iff)

lemma locate_plain:
  assumes "\<forall>n \<in> set ns. plainKey (key n)"
  shows "\<exists>r. locate ns lineText (l, col) = Some (Inr r)
             \<and> map_option fst r = findAtInclusive ns lineText col"
  using assms
proof (induction ns)
  case Nil
  show ?case by (simp add: findAtInclusive_def)
next
  case (Cons nt ns)
  let ?k = "key nt"
  let ?P = "\<lambda>j. j \<le> col \<and> col \<le> j + length ?k"
  have pk: "plainKey ?k" using Cons.prems by simp
  then have k: "?k \<noteq> []" by (simp add: plainKey_def)
  have search: "findContaining (literalRegex ?k) lineText (length ?k) (l, col) 0
                  = Some (find ?P (occurrences ?k lineText))"
    using findContaining_literal [OF k, of 0 lineText lineText "length ?k" "(l, col)"]
    by (simp add: occurrences_def rangeContains_keyRange)
  from Cons obtain r where IH: "locate ns lineText (l, col) = Some (Inr r)"
      "map_option fst r = findAtInclusive ns lineText col"
    by auto
  show ?case
  proof (cases "find ?P (occurrences ?k lineText)")
    case None
    then have "\<not> list_ex ?P (occurrences ?k lineText)" by (simp add: find_None_list_ex)
    then show ?thesis using None IH search
      by (simp add: newRegExp_plain [OF pk] findAtInclusive_def)
  next
    case (Some j)
    then have "list_ex ?P (occurrences ?k lineText)"
      using find_None_list_ex [of ?P "occurrences ?k lineText"] by auto
    then show ?thesis using Some search
      by (simp add: newRegExp_plain [OF pk] findAtInclusive_def)
  qed
qed

lemma findAllSpans_plain:
  assumes "\<forall>k \<in> set keys. plainKey k"
  shows "findAllSpans keys t =
           Some (Inr (concat (map (\<lambda>k. map (\<lambda>j. \<lparr>startOffset = j, endOffset = j + length k\<rparr>)
                                          (occurrences k t)) keys)))"
  using assms
proof (induction keys)
  case Nil
  show ?case by simp
next
  case (Cons k keys)
  have pk: "plainKey k" using Cons.prems by simp
  then have k: "k \<noteq> []" by (simp add: plainKey_def)
  have "execAll (literalRegex k) t 0 = Some (map (matchAt k) (occurrences k t))"
    using execAll_literal [OF k, of 0 t t] by (simp add: occurrences_def)
  then show ?case using Cons
    by (simp add: newRegExp_plain [OF pk] spansOfKey_def matchAt_def comp_def)
qed

text \<open>
  For plain keys every span that \<open>findAllSpans\<close> reports lies inside the text.
\<close>

lemma occurrencesFrom_bounds:
  "j \<in> set (occurrencesFrom k s i) \<Longrightarrow> i \<le> j \<and> j + length k \<le> i + length s"
proof (induction k s i rule: occurrencesFrom.induct)
  case (1 k s i)
  show ?case
  proof (cases "k = [] \<or> s = []")
    case True
    with "1.prems" show ?thesis by (subst (asm) occurrencesFrom.simps) simp
  next
    case nz: False
    show ?thesis
    proof (cases "take (length k) s = k")
      case True
      have le: "length k \<le> length s" using True by (rule take_eq_imp_le)
      from "1.prems" nz True
      have "j = i \<or> j \<in> set (occurrencesFrom k (drop (length k) s) (i + length k))"
        by (subst (asm) occurrencesFrom.simps) simp
      then show ?thesis
      proof
        assume "j = i"
        with le show ?thesis by simp
      next
        assume "j \<in> set (occurrencesFrom k (drop (length k) s) (i + length k))"
        from "1.IH"(1) [OF nz True this] le show ?thesis by simp
      qed
    next
      case False
      from "1.prems" nz False have "j \<in> set (occurrencesFrom k (tl s) (Suc i))"
        by (subst (asm) occurrencesFrom.simps) simp
      from "1.IH"(2) [OF nz False this] nz show ?thesis by (cases s) simp_all
    qed
  qed
qed

lemma findAllSpans_plain_bounds:
  assumes "\<forall>k \<in> set keys. plainKey k"
  shows "\<exists>spans. findAllSpans keys t = Some (Inr spans)
           \<and> (\<forall>sp \<in> set spans. startOffset sp \<le> endOffset sp \<and> endOffset sp \<le> length t)"
proof -
  let ?spans = "concat (map (\<lambda>k. map (\<lambda>j. \<lparr>startOffset = j, endOffset = j + length k\<rparr>)
                                       (occurrences k t)) keys)"
  have "endOffset sp \<le> length t \<and> startOffset sp \<le> endOffset sp" if "sp \<in> set ?spans" for sp
  proof -
    from that obtain k j where "j \<in> set (occurrences k t)"
        and sp: "sp = \<lparr>startOffset = j, endOffset = j + length k\<rparr>"
      by auto
    then have "j + length k \<le> length t"
      using occurrencesFrom_bounds [of j k t 0] by (simp add: occurrences_def)
    with sp show ?thesis by simp
  qed
  then show ?thesis using findAllSpans_plain [OF assms, of t] by blast
qed


section \<open>Well-formed sources: the code against the specification's grammar\<close>



lemma specMarker_not_open: "c \<noteq> openB \<Longrightarrow> specMarker v (c # s) = None"
  by (simp add: specMarker_def)














section \<open>The store after a call\<close>

text \<open>
  The loop over the matches ends for the note expressions; it leaves \<open>lastIndex\<close> at 0
  and has appended the notes of the source.
\<close>

lemma noteLoop_result:
  "i \<le> length t \<Longrightarrow> s = drop i t \<Longrightarrow>
     noteLoop v u t \<lparr>allNotes = acc, regexLastIndex = i\<rparr>
       = Some (Inr (), \<lparr>allNotes = acc @ concat (map (entryOf u t) (markerScan v s i)),
                        regexLastIndex = 0\<rparr>)"
proof (induction v s i arbitrary: acc rule: markerScan.induct)
  case (1 v s i)
  have exec: "regexExec (noteRegex v) t i = scanFrom (noteRegex v) s i"
    using "1.prems" by (simp add: regexExec_def del: scanFrom.simps)
  show ?case
  proof (cases s)
    case Nil
    then show ?thesis
      by (subst noteLoop.simps, subst markerScan.simps) (simp add: exec scanFrom_Nil del: scanFrom.simps)
  next
    case (Cons c s')
    have i: "i < length t" using "1.prems" Cons by (cases "i < length t") auto
    have s': "s' = drop (Suc i) t"
      using "1.prems" Cons i by (metis Cons_nth_drop_Suc list.inject)
    show ?thesis
    proof (cases "markerAt v s")
      case None
      have IH: "noteLoop v u t \<lparr>allNotes = acc, regexLastIndex = Suc i\<rparr>
          = Some (Inr (), \<lparr>allNotes = acc @ concat (map (entryOf u t) (markerScan v s' (Suc i))),
                           regexLastIndex = 0\<rparr>)"
        using "1.IH"(1) [OF Cons None _ s', of acc] i by simp
      have "regexExec (noteRegex v) t i = regexExec (noteRegex v) t (Suc i)"
        using exec None Cons i s' scanFrom_skip [of v c s' i]
        by (simp add: regexExec_def del: scanFrom.simps)
      then have "noteLoop v u t \<lparr>allNotes = acc, regexLastIndex = i\<rparr>
               = noteLoop v u t \<lparr>allNotes = acc, regexLastIndex = Suc i\<rparr>"
        by (subst noteLoop.simps, subst (2) noteLoop.simps) (simp split: option.splits sum.splits)
      moreover have "markerScan v s i = markerScan v s' (Suc i)"
        using Cons None by (subst markerScan.simps) simp
      ultimately show ?thesis using IH by simp
    next
      case (Some x)
      obtain k rest where x: "x = (k, rest)" by (cases x)
      let ?n = "length (capturedValue rest)"
      let ?e = "i + (length s - length rest) + ?n"
      note sp = Some [unfolded x]
      have len: "length s = length k + (case v of Strict \<Rightarrow> 3 | Tolerant \<Rightarrow> 2) + length rest"
        by (rule markerAt_lengths(1) [OF sp])
      have rest: "rest = drop (length k + (case v of Strict \<Rightarrow> 3 | Tolerant \<Rightarrow> 2)) s"
        by (rule markerAt_lengths(2) [OF sp])
      have n: "?n \<le> length rest" by (rule capturedValue_length)
      have e: "?e = mEnd (matchOf v (i, k, capturedValue rest))"
        using len by (simp add: matchOf_def)
      have slen: "length s = length t - i" using "1.prems" by simp
      have le: "?e \<le> length t" using len n slen "1.prems" by simp
      have dr: "drop ?n rest = drop ?e t"
      proof -
        have "drop ?n rest = drop (?n + (length s - length rest)) s"
          using rest len by (metis add_diff_cancel_right' drop_drop)
        also have "\<dots> = drop ?e t"
          using "1.prems" by (simp add: add.commute add.left_commute)
        finally show ?thesis .
      qed
      have IH: "noteLoop v u t \<lparr>allNotes = acc @ entryOf u t (i, k, capturedValue rest), regexLastIndex = ?e\<rparr>
          = Some (Inr (), \<lparr>allNotes = (acc @ entryOf u t (i, k, capturedValue rest))
                              @ concat (map (entryOf u t) (markerScan v (drop ?n rest) ?e)),
                           regexLastIndex = 0\<rparr>)"
        using "1.IH"(2) [OF Cons Some x [symmetric] le dr] .
      have "regexExec (noteRegex v) t i = Some (matchOf v (i, k, capturedValue rest))"
        using exec scanFrom_marker [OF sp] by simp
      then have "noteLoop v u t \<lparr>allNotes = acc, regexLastIndex = i\<rparr>
          = noteLoop v u t \<lparr>allNotes = acc @ entryOf u t (i, k, capturedValue rest), regexLastIndex = ?e\<rparr>"
        using e by (subst noteLoop.simps) (simp add: noteOfMatch_matchOf)
      moreover have "markerScan v s i = (i, k, capturedValue rest) # markerScan v (drop ?n rest) ?e"
        using Cons Some x by (subst markerScan.simps) simp
      ultimately show ?thesis using IH by simp
    qed
  qed
qed

lemma noteLoop_fresh:
  "noteLoop v u t (st\<lparr>regexLastIndex := 0\<rparr>)
     = Some (Inr (), \<lparr>allNotes = allNotes st @ notesOfSource v (u, Some t), regexLastIndex = 0\<rparr>)"
proof -
  have eq: "st\<lparr>regexLastIndex := 0\<rparr> = \<lparr>allNotes = allNotes st, regexLastIndex = 0\<rparr>" by simp
  show ?thesis
    unfolding eq
    using noteLoop_result [of 0 t t v u "allNotes st"]
    by (simp add: notesOfSource_readable scannedNotes_def)
qed

lemma fileLoop_result:
  "fileLoop v ws st =
     Some (case find (\<lambda>f. snd f = None) ws of
             None \<Rightarrow> Inr ()
           | Some f \<Rightarrow> Inl (ReadFailure (fst f)),
           \<lparr>allNotes = allNotes st
               @ concat (map (notesOfSource v) (takeWhile (\<lambda>f. snd f \<noteq> None) ws)),
            regexLastIndex = (if takeWhile (\<lambda>f. snd f \<noteq> None) ws = [] then regexLastIndex st else 0)\<rparr>)"
proof (induction ws arbitrary: st)
  case Nil
  show ?case by simp
next
  case (Cons f ws)
  obtain u c where f: "f = (u, c)" by (cases f)
  show ?case
  proof (cases c)
    case None
    with f show ?thesis by simp
  next
    case (Some t)
    show ?thesis
      unfolding f Some
      by (simp add: noteLoop_fresh Cons.IH split: option.splits)
  qed
qed


section \<open>A source that is not well formed\<close>

text \<open>
  Outside the well-formed sources the code and the grammar part. The note expressions end
  a value before every line that starts with the opening bracket, whether a key marker
  begins there or not; when none does, the text from that line to the next marker is in no
  entry. In the grammar the value runs on to the next line that begins with a key marker.
\<close>

lemma unfinished_marker_line:
  "\<not> wellFormedSource Tolerant
         (openB # ascii ''A'' @ closeB # ascii ''v1'' @ LF # openB # ascii ''B'' @ LF # ascii ''more'')
   \<and> parseDocument Tolerant ''notes.des''
         (openB # ascii ''A'' @ closeB # ascii ''v1'' @ LF # openB # ascii ''B'' @ LF # ascii ''more'')
     = Some (Inr [\<lparr>key = ascii ''A'', value' = ascii ''v1'',
                    uri = ''notes.des'', range' = lineRange 0 5\<rparr>])
   \<and> specNotes Tolerant ''notes.des''
         (openB # ascii ''A'' @ closeB # ascii ''v1'' @ LF # openB # ascii ''B'' @ LF # ascii ''more'')
     = [\<lparr>key = ascii ''A'', value' = ascii ''v1'' @ LF # openB # ascii ''B'' @ LF # ascii ''more'',
          uri = ''notes.des'', range' = lineRange 0 5\<rparr>]"
  by code_simp


section \<open>The claims\<close>

text \<open>
  Claim C1: matching is literal substring matching; a key such as \<open>a.b\<close> matches only
  its own three characters, in highlighting, hover and definition lookup.

  The code hands the key to the \<open>RegExp\<close> constructor as it is, so the dot matches any
  character. With the note \<open>a.b\<close> in the workspace and the text \<open>axb\<close>, in which the
  key does not occur, the text is highlighted from 0 to 3, and hover and definition
  lookup at column 1 both find the note. The theorem evaluates the three functions there,
  for either version of the extension.
\<close>

theorem key_is_used_as_pattern:
  "updateDecorations v True [(''n.des'', Some (noteText v (ascii ''a.b'') (ascii ''v'')))]
       (outlineEditor (ascii ''axb''))
     = Some (Inr (SetDecorations [\<lparr>startOffset = 0, endOffset = 3\<rparr>]))
   \<and> provideHover v [(''n.des'', Some (noteText v (ascii ''a.b'') (ascii ''v'')))]
       (ascii ''axb'') (0, 1)
     = Some (Inr (Some \<lparr>hoverText = ascii ''v'', hoverSource = ''n.des'',
                         hoverRange = keyRange 0 0 3\<rparr>))
   \<and> provideDefinition v [(''n.des'', Some (noteText v (ascii ''a.b'') (ascii ''v'')))]
       (ascii ''axb'') (0, 1)
     = Some (Inr (Some \<lparr>targetUri = ''n.des'',
          targetRange = keyRange 0 0 (length (noteText v (ascii ''a.b'') (ascii ''v'')))\<rparr>))
   \<and> occurrences (ascii ''a.b'') (ascii ''axb'') = []"
proof (cases v)
  case Strict
  show ?thesis unfolding Strict by code_simp
next
  case Tolerant
  show ?thesis unfolding Tolerant by code_simp
qed

theorem key_is_used_as_pattern_witness:
  "updateDecorations Strict True [(''n.des'', Some (noteText Strict (ascii ''a.b'') (ascii ''v'')))]
       (outlineEditor (ascii ''axb''))
     = Some (Inr (SetDecorations [\<lparr>startOffset = 0, endOffset = 3\<rparr>]))
   \<and> provideHover Strict [(''n.des'', Some (noteText Strict (ascii ''a.b'') (ascii ''v'')))]
       (ascii ''axb'') (0, 1)
     = Some (Inr (Some \<lparr>hoverText = ascii ''v'', hoverSource = ''n.des'',
                         hoverRange = keyRange 0 0 3\<rparr>))
   \<and> provideDefinition Strict [(''n.des'', Some (noteText Strict (ascii ''a.b'') (ascii ''v'')))]
       (ascii ''axb'') (0, 1)
     = Some (Inr (Some \<lparr>targetUri = ''n.des'',
          targetRange = keyRange 0 0 (length (noteText Strict (ascii ''a.b'') (ascii ''v'')))\<rparr>))
   \<and> occurrences (ascii ''a.b'') (ascii ''axb'') = []"
  by (rule key_is_used_as_pattern)


text \<open>
  Claim C2: every span lies within the target text and ends at its start plus the length
  of its key.

  The end of a span is computed as \<open>match.index + key.length\<close>, which is the end of
  the match only when the match is as long as the key. The key \<open>a?b\<close> matches the
  one-character text \<open>b\<close> at 0, and the span runs from 0 to 3, past the end of the text
  (where \<open>positionAt\<close> clamps the end to column 1, which is not the start plus 3).
  For keys without pattern syntax the spans do lie inside the text
  (\<open>findAllSpans_plain_bounds\<close>).
\<close>

theorem span_past_the_end:
  "updateDecorations v True [(''n.des'', Some (noteText v (ascii ''a?b'') (ascii ''v'')))]
       (outlineEditor (ascii ''b''))
     = Some (Inr (SetDecorations [\<lparr>startOffset = 0, endOffset = 3\<rparr>]))
   \<and> length (ascii ''b'') = 1
   \<and> positionAt (ascii ''b'') 3 = (0, 1)"
proof (cases v)
  case Strict
  show ?thesis unfolding Strict by code_simp
next
  case Tolerant
  show ?thesis unfolding Tolerant by code_simp
qed

theorem span_past_the_end_witness:
  "updateDecorations Strict True [(''n.des'', Some (noteText Strict (ascii ''a?b'') (ascii ''v'')))]
       (outlineEditor (ascii ''b''))
     = Some (Inr (SetDecorations [\<lparr>startOffset = 0, endOffset = 3\<rparr>]))
   \<and> length (ascii ''b'') = 1
   \<and> positionAt (ascii ''b'') 3 = (0, 1)"
  by (rule span_past_the_end)


text \<open>
  Claim C3: the scan for a key in \<open>updateDecorations\<close>, \<open>provideHover\<close> and
  \<open>provideDefinition\<close> terminates for all notes with non-empty keys and all texts.

  The key \<open>a*\<close> is non-empty and trimmed, and as a pattern it matches the empty
  string. In the text \<open>bbbb\<close> the
  first \<open>exec\<close> succeeds at 0 with \<open>lastIndex\<close> left at 0, so the loop repeats the same
  call for ever: \<open>updateDecorations\<close> does not return, and neither do the two lookups at
  column 3, which the range from 0 to 2 does not contain. For keys without pattern syntax
  the scans do end (\<open>findAllSpans_plain\<close>, \<open>locate_plain\<close>).
\<close>

theorem empty_match_never_returns:
  "parseNoteFiles v [(''n.des'', Some (noteText v (ascii ''a*'') (ascii ''v'')))]
     = Some (Inr [\<lparr>key = ascii ''a*'', value' = ascii ''v'', uri = ''n.des'',
                    range' = keyRange 0 0 (length (noteText v (ascii ''a*'') (ascii ''v'')))\<rparr>])
   \<and> updateDecorations v True [(''n.des'', Some (noteText v (ascii ''a*'') (ascii ''v'')))]
       (outlineEditor (ascii ''bbbb'')) = None
   \<and> provideHover v [(''n.des'', Some (noteText v (ascii ''a*'') (ascii ''v'')))]
       (ascii ''bbbb'') (0, 3) = None
   \<and> provideDefinition v [(''n.des'', Some (noteText v (ascii ''a*'') (ascii ''v'')))]
       (ascii ''bbbb'') (0, 3) = None"
proof -
  let ?ws = "[(''n.des'', Some (noteText v (ascii ''a*'') (ascii ''v'')))]"
  let ?r = "Seq (Star True (Chr 0x61)) Empty"
  let ?line = "keyRange 0 0 (length (noteText v (ascii ''a*'') (ascii ''v'')))"
  let ?note = "\<lparr>key = ascii ''a*'', value' = ascii ''v'', uri = ''n.des'', range' = ?line\<rparr>"
  have parsed: "parseNoteFiles v ?ws = Some (Inr [?note])"
  proof (cases v)
    case Strict
    show ?thesis unfolding Strict by code_simp
  next
    case Tolerant
    show ?thesis unfolding Tolerant by code_simp
  qed
  have regex: "newRegExp (ascii ''a*'') = Inr ?r"
    by code_simp
  have exec: "regexExec ?r (ascii ''bbbb'') 0 = Some \<lparr>mIndex = 0, mEnd = 0, mCaps = []\<rparr>"
    by code_simp
  have line: "lineAt (ascii ''bbbb'') 0 = Inr (ascii ''bbbb'', keyRange 0 0 4)"
    by code_simp
  have klen: "length (ascii ''a*'') = 2"
    by code_simp
  have outside: "\<not> rangeContains (keyRange 0 0 2) (0, 3)"
    by code_simp
  have loop: "execAll ?r (ascii ''bbbb'') 0 = None"
    by (rule execAll_stuck [OF exec]) simp
  have search: "findContaining ?r (ascii ''bbbb'') 2 (0, 3) 0 = None"
    by (rule findContaining_stuck [OF exec]) (simp_all add: outside)
  have "updateDecorations v True ?ws (outlineEditor (ascii ''bbbb'')) = None"
    by (simp add: updateDecorations_def outlineEditor_def parsed regex loop del: parseNoteFiles.simps)
  moreover have "provideHover v ?ws (ascii ''bbbb'') (0, 3) = None"
    by (simp add: provideHover_def parsed line regex klen search del: parseNoteFiles.simps)
  moreover have "provideDefinition v ?ws (ascii ''bbbb'') (0, 3) = None"
    by (simp add: provideDefinition_def parsed line regex klen search del: parseNoteFiles.simps)
  ultimately show ?thesis using parsed by (simp only: simp_thms)
qed

theorem empty_match_never_returns_witness:
  "parseNoteFiles Strict [(''n.des'', Some (noteText Strict (ascii ''a*'') (ascii ''v'')))]
     = Some (Inr [\<lparr>key = ascii ''a*'', value' = ascii ''v'', uri = ''n.des'',
                    range' = keyRange 0 0 (length (noteText Strict (ascii ''a*'') (ascii ''v'')))\<rparr>])
   \<and> updateDecorations Strict True [(''n.des'', Some (noteText Strict (ascii ''a*'') (ascii ''v'')))]
       (outlineEditor (ascii ''bbbb'')) = None
   \<and> provideHover Strict [(''n.des'', Some (noteText Strict (ascii ''a*'') (ascii ''v'')))]
       (ascii ''bbbb'') (0, 3) = None
   \<and> provideDefinition Strict [(''n.des'', Some (noteText Strict (ascii ''a*'') (ascii ''v'')))]
       (ascii ''bbbb'') (0, 3) = None"
  by (rule empty_match_never_returns)


text \<open>
  Claim C4: a source that cannot be read is reported as a failure of that source and
  skipped, and the entries of the other sources are still returned.

  \<open>parseNoteFiles\<close> has no exception handler, so this is not what it does: with three
  sources of which the second cannot be read, the result is the read failure of the
  second source, and the notes of the first and the third are not returned.
\<close>

theorem read_failure_counterexample:
  "parseNoteFiles Strict
     [(''1.des'', Some (noteText Strict (ascii ''A'') (ascii ''one''))),
      (''2.des'', None),
      (''3.des'', Some (noteText Strict (ascii ''B'') (ascii ''three'')))]
     = Some (Inl (ReadFailure ''2.des''))
   \<and> parseNoteFiles Tolerant
     [(''1.des'', Some (noteText Tolerant (ascii ''A'') (ascii ''one''))),
      (''2.des'', None),
      (''3.des'', Some (noteText Tolerant (ascii ''B'') (ascii ''three'')))]
     = Some (Inl (ReadFailure ''2.des''))"
  by code_simp


text \<open>
  Claim C4, amended: a read failure ends the whole build. The result of
  \<open>parseNoteFiles\<close> is the read failure of the first source that cannot be read, if
  there is one; only when every source can be read is it the list of the notes of all
  sources, in source order. Parsing a source that was read always yields its notes, never
  an error.
\<close>

theorem read_failure_ends_build:
  "parseNoteFiles v ws =
     (case find (\<lambda>f. snd f = None) ws of
        Some f \<Rightarrow> Some (Inl (ReadFailure (fst f)))
      | None \<Rightarrow> Some (Inr (concat (map (notesOfSource v) ws))))
   \<and> parseDocument v u t = Some (Inr (notesOfSource v (u, Some t)))"
proof
  show "parseNoteFiles v ws =
     (case find (\<lambda>f. snd f = None) ws of
        Some f \<Rightarrow> Some (Inl (ReadFailure (fst f)))
      | None \<Rightarrow> Some (Inr (concat (map (notesOfSource v) ws))))"
  proof (cases "find (\<lambda>f. snd f = None) ws")
    case None
    then show ?thesis by (simp only: parseNoteFiles_result option.case)
  next
    case (Some f)
    then show ?thesis by (simp only: parseNoteFiles_result option.case)
  qed
next
  have "notesOfSource v (u, Some t) = scannedNotes v u t"
    by (rule notesOfSource_readable)
  then show "parseDocument v u t = Some (Inr (notesOfSource v (u, Some t)))"
    by (simp only: parseDocument_scannedNotes)
qed

theorem read_failure_ends_build_witness:
  "parseNoteFiles Tolerant
     [(''1.des'', Some (noteText Tolerant (ascii ''A'') (ascii ''one''))),
      (''3.des'', Some (noteText Tolerant (ascii ''B'') (ascii ''three'')))]
     = Some (Inr [\<lparr>key = ascii ''A'', value' = ascii ''one'', uri = ''1.des'', range' = lineRange 0 6\<rparr>,
                  \<lparr>key = ascii ''B'', value' = ascii ''three'', uri = ''3.des'', range' = lineRange 0 8\<rparr>])
   \<and> parseNoteFiles Tolerant
     [(''1.des'', Some (noteText Tolerant (ascii ''A'') (ascii ''one''))),
      (''2.des'', None),
      (''3.des'', Some (noteText Tolerant (ascii ''B'') (ascii ''three'')))]
     = Some (Inl (ReadFailure ''2.des''))"
proof -
  let ?ws = "[(''1.des'', Some (noteText Tolerant (ascii ''A'') (ascii ''one''))),
      (''3.des'', Some (noteText Tolerant (ascii ''B'') (ascii ''three'')))]"
  let ?ws' = "[(''1.des'', Some (noteText Tolerant (ascii ''A'') (ascii ''one''))),
      (''2.des'', None),
      (''3.des'', Some (noteText Tolerant (ascii ''B'') (ascii ''three'')))]"
  have "find (\<lambda>f. snd f = None) ?ws = None" by simp
  moreover have "concat (map (notesOfSource Tolerant) ?ws) =
      [\<lparr>key = ascii ''A'', value' = ascii ''one'', uri = ''1.des'', range' = lineRange 0 6\<rparr>,
       \<lparr>key = ascii ''B'', value' = ascii ''three'', uri = ''3.des'', range' = lineRange 0 8\<rparr>]"
    by code_simp
  ultimately have readable: "parseNoteFiles Tolerant ?ws =
      Some (Inr [\<lparr>key = ascii ''A'', value' = ascii ''one'', uri = ''1.des'', range' = lineRange 0 6\<rparr>,
                 \<lparr>key = ascii ''B'', value' = ascii ''three'', uri = ''3.des'', range' = lineRange 0 8\<rparr>])"
    using read_failure_ends_build [of Tolerant ?ws] by (simp del: parseNoteFiles.simps)
  have "find (\<lambda>f. snd f = None) ?ws' = Some (''2.des'', None)" by simp
  then have "parseNoteFiles Tolerant ?ws' = Some (Inl (ReadFailure ''2.des''))"
    using read_failure_ends_build [of Tolerant ?ws'] by (simp del: parseNoteFiles.simps)
  with readable show ?thesis by (simp only: simp_thms)
qed





text \<open>
  Claim C6: candidates whose trimmed key or trimmed value is empty are dropped without
  an error, so every note has a non-empty trimmed key and value; for the example source,
  in which \<open>A\<close> has no value, there is no entry for \<open>A\<close> and exactly one for \<open>B\<close>.

  The example is written without a colon after the closing bracket. The strict version
  of \<open>parseNoteFiles\<close> finds no marker in it and returns no entry for \<open>B\<close> either.
\<close>

theorem strict_needs_colon_empty_value:
  "parseNoteFiles Strict [(''notes.des'', Some emptyValueExample)] = Some (Inr [])"
  by code_simp


text \<open>
  Claim C6, amended: in either version, when every source can be read
  \<open>parseNoteFiles\<close> returns a list of notes and no error, and every note it returns
  has a key and a value that are non-empty and trimmed. The example gives no entry for
  \<open>A\<close> and exactly one for \<open>B\<close> in the tolerant version, and in the strict version
  when it is written with the colons.
\<close>

theorem entries_are_nonempty:
  "((\<forall>f \<in> set ws. snd f \<noteq> None) \<longrightarrow> (\<exists>notes. parseNoteFiles v ws = Some (Inr notes)))
   \<and> (parseNoteFiles v ws = Some (Inr notes) \<longrightarrow>
        (\<forall>n \<in> set notes. key n \<noteq> [] \<and> value' n \<noteq> []
                         \<and> trim (key n) = key n \<and> trim (value' n) = value' n))
   \<and> parseNoteFiles Tolerant [(''notes.des'', Some emptyValueExample)]
       = Some (Inr [\<lparr>key = ascii ''B'', value' = ascii ''value'',
                      uri = ''notes.des'', range' = lineRange 1 8\<rparr>])
   \<and> parseNoteFiles Strict [(''notes.des'', Some emptyValueExampleColon)]
       = Some (Inr [\<lparr>key = ascii ''B'', value' = ascii ''value'',
                      uri = ''notes.des'', range' = lineRange 1 9\<rparr>])"
proof -
  have a: "(\<forall>f \<in> set ws. snd f \<noteq> None) \<longrightarrow> (\<exists>notes. parseNoteFiles v ws = Some (Inr notes))"
  proof
    assume "\<forall>f \<in> set ws. snd f \<noteq> None"
    then have "find (\<lambda>f. snd f = None) ws = None" by (auto simp: find_None_iff)
    then show "\<exists>notes. parseNoteFiles v ws = Some (Inr notes)"
      by (simp add: parseNoteFiles_result)
  qed
  have b: "parseNoteFiles v ws = Some (Inr notes) \<longrightarrow>
        (\<forall>n \<in> set notes. key n \<noteq> [] \<and> value' n \<noteq> []
                         \<and> trim (key n) = key n \<and> trim (value' n) = value' n)"
  proof (intro impI ballI)
    fix n
    assume "parseNoteFiles v ws = Some (Inr notes)" and n: "n \<in> set notes"
    then have "notes = concat (map (notesOfSource v) ws)"
      by (simp add: parseNoteFiles_result split: option.splits)
    with n obtain f where "n \<in> set (notesOfSource v f)" by auto
    then show "key n \<noteq> [] \<and> value' n \<noteq> [] \<and> trim (key n) = key n \<and> trim (value' n) = value' n"
      by (rule notesOfSource_wellformed)
  qed
  have c: "parseNoteFiles Tolerant [(''notes.des'', Some emptyValueExample)]
       = Some (Inr [\<lparr>key = ascii ''B'', value' = ascii ''value'',
                      uri = ''notes.des'', range' = lineRange 1 8\<rparr>])"
    by code_simp
  have d: "parseNoteFiles Strict [(''notes.des'', Some emptyValueExampleColon)]
       = Some (Inr [\<lparr>key = ascii ''B'', value' = ascii ''value'',
                      uri = ''notes.des'', range' = lineRange 1 9\<rparr>])"
    by code_simp
  from a b c d show ?thesis by (intro conjI)
qed

theorem entries_are_nonempty_witness:
  "parseNoteFiles Tolerant [(''notes.des'', Some emptyValueExample)]
     = Some (Inr [\<lparr>key = ascii ''B'', value' = ascii ''value'',
                    uri = ''notes.des'', range' = lineRange 1 8\<rparr>])
   \<and> trim (ascii ''B'') = ascii ''B'' \<and> trim (ascii ''value'') = ascii ''value''
   \<and> ascii ''B'' \<noteq> [] \<and> ascii ''value'' \<noteq> []"
proof -
  let ?ws = "[(''notes.des'', Some emptyValueExample)]"
  let ?n = "\<lparr>key = ascii ''B'', value' = ascii ''value'',
             uri = ''notes.des'', range' = lineRange 1 8\<rparr>"
  have parsed: "parseNoteFiles Tolerant ?ws = Some (Inr [?n])"
    by code_simp
  show ?thesis
    using entries_are_nonempty [of ?ws Tolerant "[?n]"] parsed
    by (simp del: parseNoteFiles.simps)
qed


text \<open>
  Claim C7: locate-at-position returns the first note, in list order, whose key has an
  occurrence on the line whose span contains the column, and nothing when no span
  contains it.

  A span is the half-open range from its start to its end, and \<open>specFindAt\<close> is the
  claim in these words. The providers test \<open>Range.contains\<close>, which includes the end:
  with the note \<open>KEY\<close> and the line \<open>KEY yy\<close>, both lookups at column 3 return the
  note, although the span from 0 to 3 does not contain column 3.
\<close>

theorem end_of_span_counterexample:
  "parseNoteFiles Tolerant [(''notes.des'', Some (noteText Tolerant (ascii ''KEY'') (ascii ''v'')))]
     = Some (Inr [\<lparr>key = ascii ''KEY'', value' = ascii ''v'', uri = ''notes.des'',
                    range' = lineRange 0 6\<rparr>])
   \<and> provideDefinition Tolerant
       [(''notes.des'', Some (noteText Tolerant (ascii ''KEY'') (ascii ''v'')))]
       (ascii ''KEY yy'') (0, 3)
     = Some (Inr (Some \<lparr>targetUri = ''notes.des'', targetRange = lineRange 0 6\<rparr>))
   \<and> provideHover Tolerant
       [(''notes.des'', Some (noteText Tolerant (ascii ''KEY'') (ascii ''v'')))]
       (ascii ''KEY yy'') (0, 3)
     = Some (Inr (Some \<lparr>hoverText = ascii ''v'', hoverSource = ''notes.des'',
                         hoverRange = keyRange 0 0 3\<rparr>))
   \<and> specFindAt [\<lparr>key = ascii ''KEY'', value' = ascii ''v'', uri = ''notes.des'',
                    range' = lineRange 0 6\<rparr>] (ascii ''KEY yy'') 3 = None"
  by code_simp


text \<open>
  Claim C7, amended: for notes whose keys have no pattern syntax characters, the search
  of the two providers returns the first note, in list order, whose key has an occurrence
  on the line (left to right, non-overlapping) that starts at or before the column and
  ends at or after it, both ends included, and nothing when there is none;
  \<open>provideDefinition\<close> returns the location of that note and \<open>provideHover\<close> its value
  and source. Keys with pattern syntax characters are left out of the statement.
\<close>

theorem locate_finds_first_note:
  assumes "\<forall>n \<in> set ns. plainKey (key n)"
  shows "(\<exists>r. locate ns lineText (l, col) = Some (Inr r)
              \<and> map_option fst r = findAtInclusive ns lineText col)
       \<and> (parseNoteFiles v ws = Some (Inr ns) \<and> lineAt doc l = Inr (lineText, lr) \<longrightarrow>
            provideDefinition v ws doc (l, col)
              = Some (Inr (map_option (\<lambda>n. \<lparr>targetUri = uri n, targetRange = range' n\<rparr>)
                                      (findAtInclusive ns lineText col)))
            \<and> (\<exists>h. provideHover v ws doc (l, col) = Some (Inr h)
                     \<and> map_option (\<lambda>x. (hoverText x, hoverSource x)) h
                         = map_option (\<lambda>n. (value' n, uri n)) (findAtInclusive ns lineText col)))"
proof -
  from locate_plain [OF assms, of lineText l col] obtain r where
    r: "locate ns lineText (l, col) = Some (Inr r)"
       "map_option fst r = findAtInclusive ns lineText col"
    by blast
  have "provideDefinition v ws doc (l, col)
              = Some (Inr (map_option (\<lambda>n. \<lparr>targetUri = uri n, targetRange = range' n\<rparr>)
                                      (findAtInclusive ns lineText col)))
        \<and> (\<exists>h. provideHover v ws doc (l, col) = Some (Inr h)
                     \<and> map_option (\<lambda>x. (hoverText x, hoverSource x)) h
                         = map_option (\<lambda>n. (value' n, uri n)) (findAtInclusive ns lineText col))"
    if p: "parseNoteFiles v ws = Some (Inr ns)" and li: "lineAt doc l = Inr (lineText, lr)"
  proof (cases r)
    case None
    with r p li show ?thesis
      by (simp add: provideDefinition_def provideHover_def)
  next
    case (Some a)
    obtain n rg where a: "a = (n, rg)" by (cases a)
    have fa: "findAtInclusive ns lineText col = Some n"
      using r(2) Some a by simp
    from Some a r(1) p li show ?thesis
      by (simp add: provideDefinition_def provideHover_def fa)
  qed
  with r show ?thesis by blast
qed

theorem locate_finds_first_note_witness:
  "provideDefinition Tolerant
       [(''notes.des'', Some (noteText Tolerant (ascii ''KEY'') (ascii ''v'')))]
       (ascii ''xx KEY yy KEY'') (0, 6)
     = Some (Inr (Some \<lparr>targetUri = ''notes.des'', targetRange = lineRange 0 6\<rparr>))
   \<and> provideDefinition Tolerant
       [(''notes.des'', Some (noteText Tolerant (ascii ''KEY'') (ascii ''v'')))]
       (ascii ''xx KEY yy KEY'') (0, 8)
     = Some (Inr None)"
proof -
  let ?ws = "[(''notes.des'', Some (noteText Tolerant (ascii ''KEY'') (ascii ''v'')))]"
  let ?n = "\<lparr>key = ascii ''KEY'', value' = ascii ''v'', uri = ''notes.des'', range' = lineRange 0 6\<rparr>"
  have plain: "\<forall>n \<in> set [?n]. plainKey (key n)" by code_simp
  have parsed: "parseNoteFiles Tolerant ?ws = Some (Inr [?n])" by code_simp
  have line: "lineAt (ascii ''xx KEY yy KEY'') 0 = Inr (ascii ''xx KEY yy KEY'', lineRange 0 13)"
    by code_simp
  have f6: "findAtInclusive [?n] (ascii ''xx KEY yy KEY'') 6 = Some ?n" by code_simp
  have f8: "findAtInclusive [?n] (ascii ''xx KEY yy KEY'') 8 = None" by code_simp
  show ?thesis
    using locate_finds_first_note [OF plain, of "ascii ''xx KEY yy KEY''" 0 6 Tolerant ?ws
            "ascii ''xx KEY yy KEY''" "lineRange 0 13"]
          locate_finds_first_note [OF plain, of "ascii ''xx KEY yy KEY''" 0 8 Tolerant ?ws
            "ascii ''xx KEY yy KEY''" "lineRange 0 13"]
          parsed line
    by (simp add: f6 f8 del: parseNoteFiles.simps)
qed


text \<open>
  Claim C8: for each note, one span per non-overlapping occurrence of its key, and an
  empty list, not an error, when there is nothing to report.

  The key \<open>*\<close> does not occur in the text \<open>abc\<close>, but it is not a well-formed
  pattern: the \<open>RegExp\<close> constructor throws, and \<open>updateDecorations\<close> ends with that
  \<open>SyntaxError\<close> instead of an empty list of decorations. For keys without pattern
  syntax the spans are those of the occurrences, key by key (\<open>findAllSpans_plain\<close>).
\<close>

theorem malformed_pattern_throws:
  "updateDecorations v True [(''n.des'', Some (noteText v (ascii ''*'') (ascii ''v'')))]
       (outlineEditor (ascii ''abc''))
     = Some (Inl SyntaxError)
   \<and> occurrences (ascii ''*'') (ascii ''abc'') = []"
proof (cases v)
  case Strict
  show ?thesis unfolding Strict by code_simp
next
  case Tolerant
  show ?thesis unfolding Tolerant by code_simp
qed

theorem malformed_pattern_throws_witness:
  "updateDecorations Strict True [(''n.des'', Some (noteText Strict (ascii ''*'') (ascii ''v'')))]
       (outlineEditor (ascii ''abc''))
     = Some (Inl SyntaxError)
   \<and> occurrences (ascii ''*'') (ascii ''abc'') = []"
  by (rule malformed_pattern_throws)


text \<open>
  Claim C9: \<open>parseNoteFiles\<close> is deterministic and idempotent: calling it twice on
  identical sources yields identical lists, element for element and in the same order.

  The statement is about the code with its store. A first call, started in any store
  whatever (any old contents of \<open>allNotes\<close>, any \<open>lastIndex\<close>), returns; a second call
  on the same sources, started in the store the first one left, returns the same result
  and leaves the same store. This holds because the call empties \<open>allNotes\<close> before the
  loop and takes a regular expression with \<open>lastIndex\<close> 0 for each file. The result is
  also the one of \<open>parseNoteFiles\<close> written as an expression, which the other claims
  use.
\<close>

theorem second_call_returns_the_same:
  "\<exists>r st1. parseNoteFilesFrom v ws st0 = Some (r, st1)
           \<and> parseNoteFilesFrom v ws st1 = Some (r, st1)
           \<and> parseNoteFiles v ws = Some r"
proof -
  let ?ok = "takeWhile (\<lambda>f. snd f \<noteq> None) ws"
  let ?ns = "concat (map (notesOfSource v) ?ok)"
  let ?st1 = "\<lparr>allNotes = ?ns, regexLastIndex = (if ?ok = [] then regexLastIndex st0 else 0)\<rparr>"
  show ?thesis
  proof (cases "find (\<lambda>f. snd f = None) ws")
    case None
    then have n: "\<not> (\<exists>x. x \<in> set ws \<and> snd x = None)" by (simp only: find_None_iff simp_thms)
    have "\<forall>f \<in> set ws. snd f \<noteq> None"
    proof (intro ballI notI)
      fix f assume "f \<in> set ws" "snd f = None"
      then have "\<exists>x. x \<in> set ws \<and> snd x = None" by (intro exI conjI)
      with n show False ..
    qed
    then have all: "?ok = ws" by (simp only: takeWhile_eq_all_conv)
    have "parseNoteFilesFrom v ws st0 = Some (Inr ?ns, ?st1)"
      by (simp add: parseNoteFilesFrom_def fileLoop_result None)
    moreover have "parseNoteFilesFrom v ws ?st1 = Some (Inr ?ns, ?st1)"
      by (simp add: parseNoteFilesFrom_def fileLoop_result None)
    moreover have "parseNoteFiles v ws = Some (Inr ?ns)"
      by (simp only: parseNoteFiles_result None option.case all)
    ultimately show ?thesis by blast
  next
    case (Some f)
    have "parseNoteFilesFrom v ws st0 = Some (Inl (ReadFailure (fst f)), ?st1)"
      by (simp add: parseNoteFilesFrom_def fileLoop_result Some)
    moreover have "parseNoteFilesFrom v ws ?st1 = Some (Inl (ReadFailure (fst f)), ?st1)"
      by (simp add: parseNoteFilesFrom_def fileLoop_result Some)
    moreover have "parseNoteFiles v ws = Some (Inl (ReadFailure (fst f)))"
      using Some by (simp add: parseNoteFiles_result)
    ultimately show ?thesis by blast
  qed
qed

theorem second_call_returns_the_same_witness:
  "\<exists>st1. parseNoteFilesFrom Strict [(''notes.des'', Some multiLineExampleColon)]
            \<lparr>allNotes = [\<lparr>key = ascii ''old'', value' = ascii ''entry'', uri = ''x.des'',
                           range' = lineRange 0 5\<rparr>],
             regexLastIndex = 7\<rparr>
          = Some (Inr [\<lparr>key = ascii ''A'', value' = ascii ''line1'' @ LF # ascii ''line2'',
                         uri = ''notes.des'', range' = lineRange 0 9\<rparr>,
                       \<lparr>key = ascii ''B'', value' = ascii ''line3'',
                         uri = ''notes.des'', range' = lineRange 2 9\<rparr>], st1)
        \<and> parseNoteFilesFrom Strict [(''notes.des'', Some multiLineExampleColon)] st1
          = Some (Inr [\<lparr>key = ascii ''A'', value' = ascii ''line1'' @ LF # ascii ''line2'',
                         uri = ''notes.des'', range' = lineRange 0 9\<rparr>,
                       \<lparr>key = ascii ''B'', value' = ascii ''line3'',
                         uri = ''notes.des'', range' = lineRange 2 9\<rparr>], st1)"
proof -
  let ?ws = "[(''notes.des'', Some multiLineExampleColon)]"
  let ?st0 = "\<lparr>allNotes = [\<lparr>key = ascii ''old'', value' = ascii ''entry'', uri = ''x.des'',
                           range' = lineRange 0 5\<rparr>],
             regexLastIndex = 7\<rparr>"
  let ?r = "Inr [\<lparr>key = ascii ''A'', value' = ascii ''line1'' @ LF # ascii ''line2'',
                         uri = ''notes.des'', range' = lineRange 0 9\<rparr>,
                       \<lparr>key = ascii ''B'', value' = ascii ''line3'',
                         uri = ''notes.des'', range' = lineRange 2 9\<rparr>]"
  have pure: "parseNoteFiles Strict ?ws = Some ?r"
    by code_simp
  from second_call_returns_the_same [of Strict ?ws ?st0] obtain r st1 where
    run: "parseNoteFilesFrom Strict ?ws ?st0 = Some (r, st1)"
         "parseNoteFilesFrom Strict ?ws st1 = Some (r, st1)"
         "parseNoteFiles Strict ?ws = Some r"
    by blast
  from run(3) pure have "r = ?r" by (simp only: option.inject)
  with run(1,2) show ?thesis by blast
qed

text \<open>
  Claim C10: the two versions of \<open>parseNoteFiles\<close> return the same entries for every
  source.

  They do not: for a source with the entry \<open>A\<close> written without a colon, the tolerant
  version returns the entry and the strict version returns nothing.
\<close>

theorem variants_differ:
  "parseNoteFiles Strict [(''notes.des'', Some (openB # ascii ''A'' @ closeB # ascii ''v''))]
     \<noteq> parseNoteFiles Tolerant [(''notes.des'', Some (openB # ascii ''A'' @ closeB # ascii ''v''))]"
  by code_simp


text \<open>
  Claim C10, amended: the two versions return the same result for sources in which no
  closing bracket occurs (there is no marker then, and both return no entries for such a
  source); on other sources they differ in general.
\<close>

theorem variants_agree_without_closing_bracket:
  assumes "\<forall>f \<in> set ws. \<forall>t. snd f = Some t \<longrightarrow> closeB \<notin> set t"
  shows "parseNoteFiles Strict ws = parseNoteFiles Tolerant ws"
proof -
  have "map (notesOfSource Strict) ws = map (notesOfSource Tolerant) ws"
  proof (rule map_cong [OF refl])
    fix f assume "f \<in> set ws"
    with assms have "\<And>t. snd f = Some t \<Longrightarrow> closeB \<notin> set t" by blast
    then show "notesOfSource Strict f = notesOfSource Tolerant f"
      by (simp add: notesOfSource_no_close)
  qed
  then show ?thesis by (simp only: parseNoteFiles_result)
qed

theorem variants_agree_without_closing_bracket_witness:
  "parseNoteFiles Strict [(''notes.des'', Some (ascii ''no marker''))]
     = parseNoteFiles Tolerant [(''notes.des'', Some (ascii ''no marker''))]"
proof -
  have "\<forall>f \<in> set [(''notes.des'', Some (ascii ''no marker''))].
          \<forall>t. snd f = Some t \<longrightarrow> closeB \<notin> set t"
    by (simp add: ascii_def closeB_def)
  then show ?thesis
    by (rule variants_agree_without_closing_bracket)
qed

end
